theory Spec2Isabelle
  imports Complex_Main
begin

section \<open>Numbers of the host language\<close>

text \<open>
  The component keeps its index, its timestamps and its timing options in numbers of the
  host language: double-precision values, the two infinities and NaN. A finite value is the
  real it denotes, and the two zeros are one value; a divisor zero is the positive zero,
  which is what the length of an array is.
\<close>

datatype number = Num real | PosInfinity | NegInfinity | NaN

text \<open>
  An arithmetic operation on finite values yields the exact result rounded to the nearest
  double, a tie going to the even significand. \<open>rne\<close> rounds to the nearest whole number
  in this way. \<open>exponent\<close> is the binary exponent of a positive real, from -1022 (which the
  subnormal values share) to 1023, and 1024 from \<open>2 ^ 1024\<close> on; \<open>ulp\<close> is the distance of
  two doubles at that exponent and \<open>mant\<close> the rounded significand, of 53 bits. A result
  that rounds to \<open>2 ^ 1024\<close> or more is infinite.
\<close>

definition rne :: "real \<Rightarrow> int" where
  "rne q =
     (let f = \<lfloor>q\<rfloor>; d = q - of_int f
      in if d < 1 / 2 then f else if 1 / 2 < d then f + 1 else if even f then f else f + 1)"

fun halvings :: "nat \<Rightarrow> real \<Rightarrow> nat" where
  "halvings 0 a = 0"
| "halvings (Suc k) a = (if a < 2 then 0 else Suc (halvings k (a / 2)))"

fun doublings :: "nat \<Rightarrow> real \<Rightarrow> nat" where
  "doublings 0 a = 0"
| "doublings (Suc k) a = (if 1 \<le> a then 0 else Suc (doublings k (2 * a)))"

definition exponent :: "real \<Rightarrow> int" where
  "exponent a = (if 1 \<le> a then int (halvings 1024 a) else - int (doublings 1022 a))"

definition ulp :: "real \<Rightarrow> real" where
  "ulp a = 2 powi (exponent a - 52)"

definition mant :: "real \<Rightarrow> int" where
  "mant a = rne (a / ulp a)"

definition round_pos :: "real \<Rightarrow> number" where
  "round_pos a =
     (if exponent a = 1024 \<or> (exponent a = 1023 \<and> mant a = 2 ^ 53) then PosInfinity
      else Num (of_int (mant a) * ulp a))"

fun js_neg :: "number \<Rightarrow> number" where
  "js_neg (Num x) = Num (- x)"
| "js_neg PosInfinity = NegInfinity"
| "js_neg NegInfinity = PosInfinity"
| "js_neg NaN = NaN"

definition to_double :: "real \<Rightarrow> number" where
  "to_double x = (if x = 0 then Num 0 else if 0 < x then round_pos x else js_neg (round_pos (- x)))"

text \<open>\<open>a < b\<close>; every comparison with NaN is false.\<close>

fun js_less :: "number \<Rightarrow> number \<Rightarrow> bool" where
  "js_less (Num x) (Num y) = (x < y)"
| "js_less (Num x) PosInfinity = True"
| "js_less NegInfinity (Num y) = True"
| "js_less NegInfinity PosInfinity = True"
| "js_less _ _ = False"

text \<open>\<open>a <= b\<close>.\<close>

fun js_le :: "number \<Rightarrow> number \<Rightarrow> bool" where
  "js_le (Num x) (Num y) = (x \<le> y)"
| "js_le NaN _ = False"
| "js_le _ NaN = False"
| "js_le NegInfinity _ = True"
| "js_le _ PosInfinity = True"
| "js_le _ _ = False"

text \<open>\<open>a > b\<close> and \<open>a >= b\<close> are the comparisons above with the operands exchanged.\<close>

definition js_greater :: "number \<Rightarrow> number \<Rightarrow> bool" where
  "js_greater a b = js_less b a"

definition js_ge :: "number \<Rightarrow> number \<Rightarrow> bool" where
  "js_ge a b = js_le b a"

text \<open>\<open>a / b\<close>.\<close>

fun js_div :: "number \<Rightarrow> number \<Rightarrow> number" where
  "js_div NaN _ = NaN"
| "js_div _ NaN = NaN"
| "js_div (Num x) (Num y) =
     (if y = 0 then (if x = 0 then NaN else if 0 < x then PosInfinity else NegInfinity)
      else to_double (x / y))"
| "js_div (Num x) _ = Num 0"
| "js_div PosInfinity (Num y) = (if 0 \<le> y then PosInfinity else NegInfinity)"
| "js_div NegInfinity (Num y) = (if 0 \<le> y then NegInfinity else PosInfinity)"
| "js_div _ _ = NaN"

text \<open>\<open>a * b\<close>.\<close>

fun js_mul :: "number \<Rightarrow> number \<Rightarrow> number" where
  "js_mul NaN _ = NaN"
| "js_mul _ NaN = NaN"
| "js_mul (Num x) (Num y) = to_double (x * y)"
| "js_mul (Num x) PosInfinity = (if x = 0 then NaN else if 0 < x then PosInfinity else NegInfinity)"
| "js_mul (Num x) NegInfinity = (if x = 0 then NaN else if 0 < x then NegInfinity else PosInfinity)"
| "js_mul PosInfinity (Num y) = (if y = 0 then NaN else if 0 < y then PosInfinity else NegInfinity)"
| "js_mul NegInfinity (Num y) = (if y = 0 then NaN else if 0 < y then NegInfinity else PosInfinity)"
| "js_mul PosInfinity PosInfinity = PosInfinity"
| "js_mul NegInfinity NegInfinity = PosInfinity"
| "js_mul _ _ = NegInfinity"

text \<open>\<open>a - b\<close>.\<close>

fun js_sub :: "number \<Rightarrow> number \<Rightarrow> number" where
  "js_sub NaN _ = NaN"
| "js_sub _ NaN = NaN"
| "js_sub (Num x) (Num y) = to_double (x - y)"
| "js_sub (Num x) PosInfinity = NegInfinity"
| "js_sub (Num x) NegInfinity = PosInfinity"
| "js_sub PosInfinity PosInfinity = NaN"
| "js_sub NegInfinity NegInfinity = NaN"
| "js_sub PosInfinity _ = PosInfinity"
| "js_sub NegInfinity _ = NegInfinity"

text \<open>\<open>x++\<close> leaves \<open>x + 1\<close>.\<close>

fun js_inc :: "number \<Rightarrow> number" where
  "js_inc (Num x) = to_double (x + 1)"
| "js_inc a = a"

text \<open>\<open>Math.floor\<close>, \<open>Math.min\<close>, \<open>Math.max\<close>.\<close>

fun Math_floor :: "number \<Rightarrow> number" where
  "Math_floor (Num x) = Num (of_int \<lfloor>x\<rfloor>)"
| "Math_floor a = a"

fun Math_min :: "number \<Rightarrow> number \<Rightarrow> number" where
  "Math_min NaN _ = NaN"
| "Math_min _ NaN = NaN"
| "Math_min a b = (if js_less b a then b else a)"

fun Math_max :: "number \<Rightarrow> number \<Rightarrow> number" where
  "Math_max NaN _ = NaN"
| "Math_max _ NaN = NaN"
| "Math_max a b = (if js_less a b then b else a)"

text \<open>A number in a condition: zero and NaN count as false.\<close>

fun truthy :: "number \<Rightarrow> bool" where
  "truthy (Num x) = (x \<noteq> 0)"
| "truthy NaN = False"
| "truthy _ = True"

text \<open>
  The length of an array, or a loop counter over it, as a number. An array has fewer than
  \<open>2 ^ 32\<close> entries, and a double holds every whole number below \<open>2 ^ 53\<close> exactly.
\<close>

definition num_of_nat :: "nat \<Rightarrow> number" where
  "num_of_nat n = to_double (of_nat n)"

section \<open>Strings\<close>

text \<open>
  A string is the list of its code units, which is what \<open>text.length\<close> counts and
  \<open>text[i]\<close> reads. Tag names are compared after \<open>toLowerCase\<close>; the host reports the name
  of an element of an HTML document in upper case. Both conversions are taken on the
  letters A to Z.
\<close>

definition lower_char :: "char \<Rightarrow> char" where
  "lower_char c = (let n = (of_char c :: nat) in if 65 \<le> n \<and> n \<le> 90 then char_of (n + 32) else c)"

definition upper_char :: "char \<Rightarrow> char" where
  "upper_char c = (let n = (of_char c :: nat) in if 97 \<le> n \<and> n \<le> 122 then char_of (n - 32) else c)"

definition toLowerCase :: "string \<Rightarrow> string" where
  "toLowerCase s = map lower_char s"

definition toUpperCase :: "string \<Rightarrow> string" where
  "toUpperCase s = map upper_char s"

section \<open>The tree the host parser hands to the component\<close>

text \<open>
  \<open>tempDiv.childNodes\<close> after \<open>tempDiv.innerHTML = content\<close>: text nodes, element nodes
  (with the node name as the host reports it, the attributes in their order, and the
  children) and nodes of any other type, such as comments.
\<close>

datatype src_node =
    SText string
  | SElement string "(string \<times> string) list" "src_node list"
  | SComment string

section \<open>The flat structure\<close>

text \<open>
  A list of named values in the order in which the names were added: putting a value under
  a name replaces the value of a name that is there and adds the name at the end otherwise.
  The own properties of a plain object and the attributes of an element are such lists.
\<close>

fun put :: "string \<Rightarrow> string \<Rightarrow> (string \<times> string) list \<Rightarrow> (string \<times> string) list" where
  "put k v [] = [(k, v)]"
| "put k v ((k', v') # kvs) = (if k' = k then (k, v) # kvs else (k', v') # put k v kvs)"

text \<open>
  \<open>obj[k] = v\<close> on an object created by \<open>{}\<close>, for a string \<open>v\<close>. The key \<open>__proto__\<close> is not
  stored: the assignment reaches the accessor the object inherits, which ignores a value
  that is neither an object nor null.
\<close>

definition obj_set :: "string \<Rightarrow> string \<Rightarrow> (string \<times> string) list \<Rightarrow> (string \<times> string) list" where
  "obj_set k v obj = (if k = ''__proto__'' then obj else put k v obj)"

text \<open>
  \<open>Object.entries(obj)\<close> lists first the keys that are array indices (the decimal numerals
  without a leading zero of the whole numbers below \<open>2 ^ 32 - 1\<close>) by ascending value, then the
  other keys in the order in which they were added.
\<close>

definition is_digit :: "char \<Rightarrow> bool" where
  "is_digit c = (48 \<le> (of_char c :: nat) \<and> (of_char c :: nat) \<le> 57)"

definition digits_value :: "string \<Rightarrow> nat" where
  "digits_value k = foldl (\<lambda>n c. 10 * n + ((of_char c :: nat) - 48)) 0 k"

definition array_index :: "string \<Rightarrow> nat option" where
  "array_index k =
     (if k \<noteq> [] \<and> list_all is_digit k \<and> (k = ''0'' \<or> hd k \<noteq> CHR ''0'')
         \<and> digits_value k < 4294967295
      then Some (digits_value k) else None)"

definition Object_entries :: "(string \<times> string) list \<Rightarrow> (string \<times> string) list" where
  "Object_entries obj =
     map snd (sort_key fst
       (List.map_filter (\<lambda>(k, v). map_option (\<lambda>i. (i, (k, v))) (array_index k)) obj))
     @ filter (\<lambda>(k, v). array_index k = None) obj"

record tagInfo =
  name :: string
  attributes :: "(string \<times> string) list"

text \<open>An entry of \<open>_parsedNodes\<close>; every entry the parser pushes has the type \<open>char\<close>.\<close>

datatype parsed_node = CharNode (char: char) (tags: "tagInfo list")

text \<open>The loop \<open>for (const attr of node.attributes) tagInfo.attributes[attr.name] = attr.value\<close>.\<close>

fun copy_attributes :: "(string \<times> string) list \<Rightarrow> (string \<times> string) list \<Rightarrow> (string \<times> string) list" where
  "copy_attributes [] obj = obj"
| "copy_attributes ((k, v) # as) obj = copy_attributes as (obj_set k v obj)"

text \<open>
  \<open>_traverseNodes(nodes, openTags)\<close>, with \<open>this._parsedNodes\<close> passed through: the
  characters of a text node are pushed one by one, each with a copy of \<open>openTags\<close>.
\<close>

fun push_chars :: "string \<Rightarrow> tagInfo list \<Rightarrow> parsed_node list \<Rightarrow> parsed_node list" where
  "push_chars [] openTags acc = acc"
| "push_chars (c # cs) openTags acc = push_chars cs openTags (acc @ [CharNode c openTags])"

fun traverseNodes :: "src_node list \<Rightarrow> tagInfo list \<Rightarrow> parsed_node list \<Rightarrow> parsed_node list"
  and traverseNode :: "src_node \<Rightarrow> tagInfo list \<Rightarrow> parsed_node list \<Rightarrow> parsed_node list" where
  "traverseNodes [] openTags acc = acc"
| "traverseNodes (node # nodes) openTags acc =
     traverseNodes nodes openTags (traverseNode node openTags acc)"
| "traverseNode (SText text) openTags acc = push_chars text openTags acc"
| "traverseNode (SElement nodeName attrs childNodes) openTags acc =
     (let tagInfo = \<lparr>name = toLowerCase nodeName, attributes = copy_attributes attrs []\<rparr>;
          newOpenTags = openTags @ [tagInfo]
      in traverseNodes childNodes newOpenTags acc)"
| "traverseNode (SComment _) openTags acc = acc"

text \<open>\<open>_parseContent\<close> on the tree the host built from the content.\<close>

definition parseContent :: "src_node list \<Rightarrow> parsed_node list" where
  "parseContent childNodes = traverseNodes childNodes [] []"

section \<open>The nodes the renderer creates\<close>

text \<open>
  \<open>_render\<close> creates a document fragment, elements and text nodes, and appends each to a
  parent that is already there. The nodes live in a store, a node's identity is its index,
  and \<open>children\<close> lists the identities of its child nodes in order.
\<close>

datatype node_kind =
    Fragment
  | Element string "(string \<times> string) list"
  | TextNode string

record dom_node =
  kind :: node_kind
  children :: "nat list"

type_synonym store = "dom_node list"

text \<open>\<open>document.createElement(name)\<close> in an HTML document lower-cases the name.\<close>

definition createElement :: "string \<Rightarrow> dom_node" where
  "createElement n = \<lparr>kind = Element (toLowerCase n) [], children = []\<rparr>"

definition createTextNode :: "string \<Rightarrow> dom_node" where
  "createTextNode d = \<lparr>kind = TextNode d, children = []\<rparr>"

fun nodeName :: "dom_node \<Rightarrow> string" where
  "nodeName \<lparr>kind = Element n _, children = _\<rparr> = toUpperCase n"
| "nodeName \<lparr>kind = TextNode _, children = _\<rparr> = ''#text''"
| "nodeName \<lparr>kind = Fragment, children = _\<rparr> = ''#document-fragment''"

text \<open>
  \<open>element.setAttribute(name, value)\<close> on the node \<open>e\<close> of the store. The names are those of
  attributes of the parsed content, which the host is taken to accept as they are.
\<close>

fun set_attr :: "string \<Rightarrow> string \<Rightarrow> dom_node \<Rightarrow> dom_node" where
  "set_attr k v \<lparr>kind = Element n as, children = cs\<rparr> = \<lparr>kind = Element n (put k v as), children = cs\<rparr>"
| "set_attr k v d = d"

definition setAttribute :: "nat \<Rightarrow> string \<Rightarrow> string \<Rightarrow> store \<Rightarrow> store" where
  "setAttribute e k v h = h[e := set_attr k v (h ! e)]"

text \<open>\<open>parent.appendChild(child)\<close> for a child that has no parent yet.\<close>

definition appendChild :: "nat \<Rightarrow> nat \<Rightarrow> store \<Rightarrow> store" where
  "appendChild parent child h = h[parent := (h ! parent)\<lparr>children := children (h ! parent) @ [child]\<rparr>]"

section \<open>The renderer\<close>

record render_state =
  heap :: store
  tagStack :: "nat list"
  parentStack :: "nat list"
  currentParent :: nat

text \<open>
  \<open>_tagsMatch(tags1, tags2)\<close>: the elements of the stack against the tags of a character.
  Every entry of the stack is an element, so the test \<open>!element\<close> never holds.
\<close>

fun tagsMatch_loop :: "store \<Rightarrow> nat list \<Rightarrow> tagInfo list \<Rightarrow> bool" where
  "tagsMatch_loop h [] _ = True"
| "tagsMatch_loop h (element # es) (tagInfo # ts) =
     (if toLowerCase (nodeName (h ! element)) \<noteq> name tagInfo then False
      else tagsMatch_loop h es ts)"
| "tagsMatch_loop h (element # es) [] = False"

definition tagsMatch :: "store \<Rightarrow> nat list \<Rightarrow> tagInfo list \<Rightarrow> bool" where
  "tagsMatch h tags1 tags2 =
     (if length tags1 \<noteq> length tags2 then False else tagsMatch_loop h tags1 tags2)"

text \<open>
  The loop that closes the tags that are no longer needed. The stack of parents holds the
  fragment below the elements of the tag stack, so it is not empty after a pop.
\<close>

function close_tags :: "tagInfo list \<Rightarrow> render_state \<Rightarrow> render_state" where
  "close_tags ts st =
     (if length (tagStack st) > length ts \<or>
         (length (tagStack st) > 0 \<and> \<not> tagsMatch (heap st) (tagStack st) ts)
      then close_tags ts
             (st\<lparr>tagStack := butlast (tagStack st),
                 parentStack := butlast (parentStack st),
                 currentParent := last (butlast (parentStack st))\<rparr>)
      else st)"
  by pat_completeness auto
termination
  by (relation "measure (\<lambda>(ts, st). length (tagStack st))") auto

text \<open>
  The loop that opens the new tags: \<open>j\<close> runs from the height of the stack to the number of
  tags, and the stack grows by one element in every round, so the rounds are the tags
  beyond the height of the stack at the start. \<open>set_attributes\<close> is the inner loop over
  the entries of the attributes of the tag.
\<close>

fun set_attributes :: "nat \<Rightarrow> (string \<times> string) list \<Rightarrow> store \<Rightarrow> store" where
  "set_attributes e [] h = h"
| "set_attributes e ((k, v) # kvs) h = set_attributes e kvs (setAttribute e k v h)"

definition open_tag :: "tagInfo \<Rightarrow> render_state \<Rightarrow> render_state" where
  "open_tag tagInfo st =
     (let element = length (heap st);
          h1 = heap st @ [createElement (name tagInfo)];
          h2 = set_attributes element (Object_entries (attributes tagInfo)) h1;
          h3 = appendChild (currentParent st) element h2
      in \<lparr>heap = h3,
          tagStack = tagStack st @ [element],
          parentStack = parentStack st @ [element],
          currentParent = element\<rparr>)"

fun open_loop :: "tagInfo list \<Rightarrow> render_state \<Rightarrow> render_state" where
  "open_loop [] st = st"
| "open_loop (tagInfo # ts) st = open_loop ts (open_tag tagInfo st)"

definition open_tags :: "tagInfo list \<Rightarrow> render_state \<Rightarrow> render_state" where
  "open_tags ts st = open_loop (drop (length (tagStack st)) ts) st"

definition add_text :: "char \<Rightarrow> render_state \<Rightarrow> render_state" where
  "add_text c st =
     (let textNode = length (heap st);
          h1 = heap st @ [createTextNode [c]]
      in st\<lparr>heap := appendChild (currentParent st) textNode h1\<rparr>)"

text \<open>One round of the loop over the characters.\<close>

fun render_node :: "parsed_node \<Rightarrow> render_state \<Rightarrow> render_state" where
  "render_node (CharNode c ts) st = add_text c (open_tags ts (close_tags ts st))"

datatype error = TypeError

text \<open>
  The loop \<open>for (let i = 0; i < this._currentIndex; i++)\<close> over \<open>this._parsedNodes[i]\<close>;
  the first argument is the part of the array from \<open>i\<close> on. Beyond the end of the array
  the entry is undefined and reading its type raises a TypeError.
\<close>

fun render_loop :: "parsed_node list \<Rightarrow> nat \<Rightarrow> number \<Rightarrow> render_state \<Rightarrow> error + render_state" where
  "render_loop [] i idx st = (if js_less (num_of_nat i) idx then Inl TypeError else Inr st)"
| "render_loop (node # rest) i idx st =
     (if js_less (num_of_nat i) idx then render_loop rest (Suc i) idx (render_node node st)
      else Inr st)"

text \<open>The state at the start of \<open>_render\<close>: the fragment is node 0.\<close>

definition render_init :: render_state where
  "render_init = \<lparr>heap = [\<lparr>kind = Fragment, children = []\<rparr>], tagStack = [], parentStack = [0], currentParent = 0\<rparr>"

definition render_fragment :: "parsed_node list \<Rightarrow> number \<Rightarrow> error + render_state" where
  "render_fragment parsedNodes idx = render_loop parsedNodes 0 idx render_init"

section \<open>Reading a tree off the store\<close>

datatype dom = DText string | DElement string "(string \<times> string) list" "dom list" | DFragment "dom list"

text \<open>
  Every node is created before its children, so the trees are built from the last node of
  the store to the first; \<open>trees i ns\<close> pairs the nodes \<open>i, i + 1, ...\<close> with their trees.
\<close>

fun tree_node :: "node_kind \<Rightarrow> dom list \<Rightarrow> dom" where
  "tree_node Fragment ds = DFragment ds"
| "tree_node (Element n as) ds = DElement n as ds"
| "tree_node (TextNode d) ds = DText d"

fun trees :: "nat \<Rightarrow> dom_node list \<Rightarrow> (nat \<times> dom) list" where
  "trees i [] = []"
| "trees i (n # ns) =
     (let later = trees (Suc i) ns
      in (i, tree_node (kind n) (List.map_filter (map_of later) (children n))) # later)"

text \<open>The children of the fragment, which \<open>_render\<close> moves into the content element.\<close>

definition fragment_children :: "store \<Rightarrow> dom list" where
  "fragment_children h = (case trees 0 h of (_, DFragment ds) # _ \<Rightarrow> ds | _ \<Rightarrow> [])"

section \<open>The component\<close>

datatype event =
    EvStart | EvPause | EvResume | EvComplete | EvReset
  | EvProgress number number number
  | EvSeek number number

text \<open>
  The fields of the component, then its surroundings: the children of the content element,
  the events dispatched so far, the frame callbacks the host still holds and the last
  handle the host has given out (handles are positive).
\<close>

record tw =
  originalContent :: string
  parsedNodes :: "parsed_node list"
  currentIndex :: number
  isPlaying :: bool
  isPaused :: bool
  animationFrame :: "nat option"
  lastTimestamp :: number
  speed :: number
  minDuration :: number
  maxDuration :: number
  contentElement :: "dom list"
  dispatched :: "event list"
  frameRequests :: "nat list"
  frameCounter :: nat

definition dispatchEvent :: "event \<Rightarrow> tw \<Rightarrow> tw" where
  "dispatchEvent e s = s\<lparr>dispatched := dispatched s @ [e]\<rparr>"

text \<open>\<open>this._animationFrame = requestAnimationFrame((ts) => this._animate(ts))\<close>.\<close>

definition requestAnimationFrame :: "tw \<Rightarrow> tw" where
  "requestAnimationFrame s =
     (let h = Suc (frameCounter s)
      in s\<lparr>frameCounter := h, frameRequests := frameRequests s @ [h], animationFrame := Some h\<rparr>)"

definition cancelAnimation :: "tw \<Rightarrow> tw" where
  "cancelAnimation s =
     (case animationFrame s of
        Some h \<Rightarrow>
          if h \<noteq> 0 then s\<lparr>frameRequests := removeAll h (frameRequests s), animationFrame := None\<rparr>
          else s
      | None \<Rightarrow> s)"

text \<open>
  \<open>_render\<close>: the fragment replaces the children of the content element. A method that
  raises an error leaves the component as it is at that moment; the result holds the error
  and that state. The loop of \<open>_render\<close> works on a fragment of its own, so an error in it
  leaves the component as \<open>_render\<close> found it.
\<close>

type_synonym outcome = "(error \<times> tw) + tw"

definition render :: "tw \<Rightarrow> outcome" where
  "render s =
     (case render_fragment (parsedNodes s) (currentIndex s) of
        Inl e \<Rightarrow> Inl (e, s)
      | Inr st \<Rightarrow> Inr (s\<lparr>contentElement := fragment_children (heap st)\<rparr>))"

definition calculateCharDelay :: "tw \<Rightarrow> number" where
  "calculateCharDelay s =
     (let totalChars = length (parsedNodes s)
      in if totalChars = 0 then Num 0
         else
           let baseDelay = js_div (Num 50) (speed s);
               baseDuration = js_mul baseDelay (num_of_nat totalChars)
           in if js_greater (minDuration s) (Num 0) \<and> js_less baseDuration (minDuration s)
              then js_div (minDuration s) (num_of_nat totalChars)
              else if js_less (maxDuration s) PosInfinity \<and> js_greater baseDuration (maxDuration s)
              then js_div (maxDuration s) (num_of_nat totalChars)
              else baseDelay)"

text \<open>
  \<open>attributeChangedCallback\<close>; \<open>parseFloat\<close> is the host's, applied to the new value of
  the attribute (which is null when the attribute is removed).
\<close>

definition attributeChangedCallback ::
  "(string option \<Rightarrow> number) \<Rightarrow> string \<Rightarrow> string option \<Rightarrow> string option \<Rightarrow> tw \<Rightarrow> tw" where
  "attributeChangedCallback parseFloat attr oldValue newValue s =
     (if oldValue = newValue then s
      else if attr = ''speed'' then
        (let speed = parseFloat newValue
         in s\<lparr>speed := (if js_greater speed (Num 0) then speed else Num 1)\<rparr>)
      else if attr = ''min-duration'' then
        (let minDuration = parseFloat newValue
         in s\<lparr>minDuration := (if js_ge minDuration (Num 0) then minDuration else Num 0)\<rparr>)
      else if attr = ''max-duration'' then
        (let maxDuration = parseFloat newValue
         in s\<lparr>maxDuration := (if js_ge maxDuration (Num 0) then maxDuration else PosInfinity)\<rparr>)
      else s)"

text \<open>The part of \<open>_animate\<close> that runs once the delay has elapsed.\<close>

definition advance :: "tw \<Rightarrow> outcome" where
  "advance s =
     (if js_less (currentIndex s) (num_of_nat (length (parsedNodes s))) then
        (case render (s\<lparr>currentIndex := js_inc (currentIndex s)\<rparr>) of
           Inl e \<Rightarrow> Inl e
         | Inr s' \<Rightarrow>
             Inr (dispatchEvent
                    (EvProgress (currentIndex s') (num_of_nat (length (parsedNodes s')))
                       (js_div (currentIndex s') (num_of_nat (length (parsedNodes s')))))
                    s'))
      else Inr s)"

definition animate :: "number \<Rightarrow> tw \<Rightarrow> outcome" where
  "animate timestamp s =
     (if \<not> isPlaying s \<or> isPaused s then Inr s
      else
        let s1 = (if \<not> truthy (lastTimestamp s) then s\<lparr>lastTimestamp := timestamp\<rparr> else s);
            elapsed = js_sub timestamp (lastTimestamp s1);
            charDelay = calculateCharDelay s1
        in if js_ge elapsed charDelay then
             (case advance (s1\<lparr>lastTimestamp := timestamp\<rparr>) of
                Inl e \<Rightarrow> Inl e
              | Inr s2 \<Rightarrow>
                  if js_ge (currentIndex s2) (num_of_nat (length (parsedNodes s2)))
                  then Inr (dispatchEvent EvComplete (s2\<lparr>isPlaying := False\<rparr>))
                  else Inr (requestAnimationFrame s2))
           else Inr (requestAnimationFrame s1))"

text \<open>
  The host runs a frame callback: it takes the oldest one off its list and calls it with
  the timestamp of the frame.
\<close>

definition run_frame :: "number \<Rightarrow> tw \<Rightarrow> outcome" where
  "run_frame timestamp s =
     (case frameRequests s of
        [] \<Rightarrow> Inr s
      | h # hs \<Rightarrow> animate timestamp (s\<lparr>frameRequests := hs\<rparr>))"

text \<open>
  The public methods. \<open>setText\<close> takes the host's HTML parser, which turns the content into
  the child nodes of a temporary element.
\<close>

definition setText :: "(string \<Rightarrow> src_node list) \<Rightarrow> string \<Rightarrow> tw \<Rightarrow> outcome" where
  "setText innerHTML content s =
     (let s1 = cancelAnimation s;
          s2 = s1\<lparr>originalContent := content, currentIndex := Num 0, lastTimestamp := Num 0,
                  isPlaying := False, isPaused := False\<rparr>;
          s3 = s2\<lparr>parsedNodes := parseContent (innerHTML (originalContent s2))\<rparr>
      in render s3)"

definition start :: "tw \<Rightarrow> outcome" where
  "start s =
     (if isPlaying s then Inr s
      else
        (case render ((cancelAnimation s)\<lparr>currentIndex := Num 0, lastTimestamp := Num 0,
                                           isPlaying := True, isPaused := False\<rparr>) of
           Inl e \<Rightarrow> Inl e
         | Inr s' \<Rightarrow> Inr (requestAnimationFrame (dispatchEvent EvStart s'))))"

definition pause :: "tw \<Rightarrow> tw" where
  "pause s =
     (if \<not> isPlaying s \<or> isPaused s then s
      else dispatchEvent EvPause (cancelAnimation (s\<lparr>isPaused := True\<rparr>)))"

definition resume :: "tw \<Rightarrow> tw" where
  "resume s =
     (if \<not> isPlaying s \<or> \<not> isPaused s then s
      else requestAnimationFrame
             (dispatchEvent EvResume (s\<lparr>isPaused := False, lastTimestamp := Num 0\<rparr>)))"

definition complete :: "tw \<Rightarrow> outcome" where
  "complete s =
     (case render ((cancelAnimation s)\<lparr>currentIndex := num_of_nat (length (parsedNodes s)),
                                        isPlaying := False, isPaused := False\<rparr>) of
        Inl e \<Rightarrow> Inl e
      | Inr s' \<Rightarrow> Inr (dispatchEvent EvComplete s'))"

definition reset :: "tw \<Rightarrow> outcome" where
  "reset s =
     (case render ((cancelAnimation s)\<lparr>currentIndex := Num 0, lastTimestamp := Num 0,
                                        isPlaying := False, isPaused := False\<rparr>) of
        Inl e \<Rightarrow> Inl e
      | Inr s' \<Rightarrow> Inr (dispatchEvent EvReset s'))"

definition seek :: "number \<Rightarrow> tw \<Rightarrow> outcome" where
  "seek position s =
     (let wasPlaying = (isPlaying s \<and> \<not> isPaused s);
          s1 = cancelAnimation s;
          len = num_of_nat (length (parsedNodes s1));
          s2 = (if js_ge position (Num 0) \<and> js_le position (Num 1)
                then s1\<lparr>currentIndex := Math_floor (js_mul position len)\<rparr>
                else s1\<lparr>currentIndex := Math_max (Num 0) (Math_min position len)\<rparr>)
      in case render (s2\<lparr>lastTimestamp := Num 0\<rparr>) of
           Inl e \<Rightarrow> Inl e
         | Inr s3 \<Rightarrow>
             (let s4 = dispatchEvent
                         (EvSeek (currentIndex s3)
                            (js_div (currentIndex s3) (num_of_nat (length (parsedNodes s3)))))
                         s3
              in if wasPlaying then Inr (requestAnimationFrame (s4\<lparr>isPaused := False\<rparr>))
                 else Inr s4))"

text \<open>The getters.\<close>

definition get_isPlaying :: "tw \<Rightarrow> bool" where
  "get_isPlaying s = (isPlaying s \<and> \<not> isPaused s)"

definition get_isPaused :: "tw \<Rightarrow> bool" where
  "get_isPaused s = isPaused s"

definition progress :: "tw \<Rightarrow> number" where
  "progress s =
     (if length (parsedNodes s) > 0
      then js_div (currentIndex s) (num_of_nat (length (parsedNodes s)))
      else Num 0)"

text \<open>
  A sequence of calls: the next call is made on the component as the last one left it, and
  none is made after an error that nothing catches.
\<close>

definition and_then :: "outcome \<Rightarrow> (tw \<Rightarrow> outcome) \<Rightarrow> outcome" where
  "and_then r f = (case r of Inl x \<Rightarrow> Inl x | Inr s \<Rightarrow> f s)"

text \<open>The component as the constructor leaves it.\<close>

definition constructed :: tw where
  "constructed =
     \<lparr>originalContent = [], parsedNodes = [], currentIndex = Num 0, isPlaying = False,
      isPaused = False, animationFrame = None, lastTimestamp = Num 0, speed = Num 1,
      minDuration = Num 0, maxDuration = PosInfinity, contentElement = [], dispatched = [],
      frameRequests = [], frameCounter = 0\<rparr>"

section \<open>The delay policy as the specification words it\<close>

text \<open>
  A speed that is not positive counts as 1; no characters give the delay 0; otherwise the
  base delay is \<open>50 / speed\<close>, the projected duration is the base delay times the number
  of characters, and the delay is the minimum duration over the number of characters when
  the minimum is positive and the projection falls short of it, else the maximum duration
  over the number of characters when the maximum is bounded and the projection exceeds it,
  else the base delay.
\<close>

definition delayPerChar :: "nat \<Rightarrow> number \<Rightarrow> number \<Rightarrow> number \<Rightarrow> number" where
  "delayPerChar totalChars speedArg minDurationMs maxDurationMs =
     (let speed1 = (if js_le speedArg (Num 0) \<or> speedArg = NaN then Num 1 else speedArg)
      in if totalChars = 0 then Num 0
         else
           let baseDelay = js_div (Num 50) speed1;
               projected = js_mul baseDelay (num_of_nat totalChars)
           in if js_less (Num 0) minDurationMs \<and> js_less projected minDurationMs
              then js_div minDurationMs (num_of_nat totalChars)
              else if maxDurationMs \<noteq> PosInfinity \<and> js_less maxDurationMs projected
              then js_div maxDurationMs (num_of_nat totalChars)
              else baseDelay)"

text \<open>A content of ten characters outside any element.\<close>

definition ten_chars :: "parsed_node list" where
  "ten_chars = replicate 10 (CharNode CHR ''x'' [])"

section \<open>Notions of the specification\<close>

text \<open>
  At most one frame callback is pending, and it is the one whose handle the component
  holds.
\<close>

definition frames_ok :: "tw \<Rightarrow> bool" where
  "frames_ok s =
     (case animationFrame s of
        None \<Rightarrow> frameRequests s = []
      | Some h \<Rightarrow> 0 < h \<and> h \<le> frameCounter s \<and> (frameRequests s = [] \<or> frameRequests s = [h]))"

text \<open>
  The target of \<open>seek\<close> in the words of the specification: for a position from 0 to 1 the
  product of the position and the length, rounded down; any other position is clamped into
  the range from 0 to the length. The product is the product of two numbers of the host
  language.
\<close>

definition clamp :: "number \<Rightarrow> number \<Rightarrow> number \<Rightarrow> number" where
  "clamp x lo hi = (if js_less x lo then lo else if js_less hi x then hi else x)"

definition seek_target :: "number \<Rightarrow> nat \<Rightarrow> number" where
  "seek_target position len =
     (if js_le (Num 0) position \<and> js_le position (Num 1)
      then Math_floor (js_mul position (num_of_nat len))
      else clamp position (Num 0) (num_of_nat len))"

text \<open>The index lies between 0 and the number of characters.\<close>

definition index_in_range :: "tw \<Rightarrow> bool" where
  "index_in_range s =
     (js_le (Num 0) (currentIndex s) \<and> js_le (currentIndex s) (num_of_nat (length (parsedNodes s))))"

section \<open>Example states\<close>

text \<open>The tree of the content \<open><b>Hi</b>\<close>, its flat structure, and the component paused on it.\<close>

definition hi_tree :: "src_node list" where
  "hi_tree = [SElement ''B'' [] [SText ''Hi'']]"

definition hi_nodes :: "parsed_node list" where
  "hi_nodes = [CharNode CHR ''H'' [\<lparr>name = ''b'', attributes = []\<rparr>],
               CharNode CHR ''i'' [\<lparr>name = ''b'', attributes = []\<rparr>]]"

definition paused_example :: tw where
  "paused_example =
     constructed\<lparr>originalContent := ''<b>Hi</b>'', parsedNodes := hi_nodes,
                 isPlaying := True, isPaused := True,
                 dispatched := [EvStart, EvPause], frameCounter := 1\<rparr>"

section \<open>Notions of the tick loop\<close>

text \<open>
  The time the elapsed time is measured from (the time of the last advance, or the time of
  the call when the anchor is cleared), and whether the delay of one character has elapsed.
\<close>

definition anchor :: "number \<Rightarrow> tw \<Rightarrow> number" where
  "anchor timestamp s = (if truthy (lastTimestamp s) then lastTimestamp s else timestamp)"

definition delay_elapsed :: "number \<Rightarrow> tw \<Rightarrow> bool" where
  "delay_elapsed timestamp s = js_le (calculateCharDelay s) (js_sub timestamp (anchor timestamp s))"

text \<open>
  What a caller can tell of the component after a call: the index, the \<open>progress\<close> property,
  the \<open>isPlaying\<close> property, the flag \<open>_isPlaying\<close> behind it, the frame callbacks that are
  pending, and whether \<open>complete\<close> has been dispatched.
\<close>

definition observed :: "tw \<Rightarrow> number \<times> number \<times> bool \<times> bool \<times> nat list \<times> bool" where
  "observed s =
     (currentIndex s, progress s, get_isPlaying s, isPlaying s, frameRequests s,
      EvComplete \<in> set (dispatched s))"

text \<open>
  Ten characters are set and started, and \<open>seek(9.5)\<close> is called; then the host runs the
  pending frame callback at the time 1000 and the next one at the time 1050, a delay of one
  character later.
\<close>

definition ten_x :: "src_node list" where
  "ten_x = [SText ''xxxxxxxxxx'']"

definition playing_ten :: outcome where
  "playing_ten = and_then (setText (\<lambda>content. ten_x) ''xxxxxxxxxx'' constructed) start"

definition sought :: outcome where
  "sought = and_then playing_ten (seek (Num (19 / 2)))"

definition first_tick :: outcome where
  "first_tick = and_then sought (run_frame (Num 1000))"

definition second_tick :: outcome where
  "second_tick = and_then first_tick (run_frame (Num 1050))"

section \<open>The parser as the specification words it\<close>

text \<open>
  The walk over the tree, depth first and in document order: an element is entered, its
  children are walked, the element is left. Entering pushes a frame (the tag name in lower
  case, the attributes as they are) on the ancestry stack and leaving pops it; every
  character of a text node is emitted with the stack as it is at that moment.
\<close>

datatype visit = Enter string "(string \<times> string) list" | Leave | Chars string | Other

fun visits :: "src_node list \<Rightarrow> visit list"
  and visit_node :: "src_node \<Rightarrow> visit list" where
  "visits [] = []"
| "visits (node # nodes) = visit_node node @ visits nodes"
| "visit_node (SText text) = [Chars text]"
| "visit_node (SElement n attrs childNodes) = Enter n attrs # visits childNodes @ [Leave]"
| "visit_node (SComment _) = [Other]"

fun walk :: "visit list \<Rightarrow> tagInfo list \<Rightarrow> parsed_node list" where
  "walk [] stack = []"
| "walk (Enter n attrs # vs) stack = walk vs (stack @ [\<lparr>name = toLowerCase n, attributes = attrs\<rparr>])"
| "walk (Leave # vs) stack = walk vs (butlast stack)"
| "walk (Chars text # vs) stack = map (\<lambda>c. CharNode c stack) text @ walk vs stack"
| "walk (Other # vs) stack = walk vs stack"

text \<open>The text of the tree in document order; a comment has none.\<close>

fun textContent :: "src_node list \<Rightarrow> string"
  and text_of :: "src_node \<Rightarrow> string" where
  "textContent [] = []"
| "textContent (node # nodes) = text_of node @ textContent nodes"
| "text_of (SText text) = text"
| "text_of (SElement _ _ childNodes) = textContent childNodes"
| "text_of (SComment _) = []"

text \<open>No element of the tree has two attributes of one name, as the host guarantees.\<close>

fun distinct_names :: "src_node list \<Rightarrow> bool"
  and distinct_names_node :: "src_node \<Rightarrow> bool" where
  "distinct_names [] = True"
| "distinct_names (node # nodes) = (distinct_names_node node \<and> distinct_names nodes)"
| "distinct_names_node (SText _) = True"
| "distinct_names_node (SElement _ attrs childNodes) = (distinct (map fst attrs) \<and> distinct_names childNodes)"
| "distinct_names_node (SComment _) = True"

text \<open>No attribute of the tree has the name \<open>__proto__\<close>.\<close>

fun proto_free :: "src_node list \<Rightarrow> bool"
  and proto_free_node :: "src_node \<Rightarrow> bool" where
  "proto_free [] = True"
| "proto_free (node # nodes) = (proto_free_node node \<and> proto_free nodes)"
| "proto_free_node (SText _) = True"
| "proto_free_node (SElement _ attrs childNodes) =
     (''__proto__'' \<notin> set (map fst attrs) \<and> proto_free childNodes)"
| "proto_free_node (SComment _) = True"

text \<open>The tree of \<open><b __proto__="x" id="k">Hi</b>\<close>.\<close>

definition proto_tree :: "src_node list" where
  "proto_tree = [SElement ''B'' [(''__proto__'', ''x''), (''id'', ''k'')] [SText ''Hi'']]"

text \<open>The tree of \<open><p class="x">a<!--c--><b id="k" dir="rtl">c</b></p>\<close>.\<close>

definition mixed_tree :: "src_node list" where
  "mixed_tree =
     [SElement ''P'' [(''class'', ''x'')]
        [SText ''a'', SComment ''c'', SElement ''B'' [(''id'', ''k''), (''dir'', ''rtl'')] [SText ''c'']]]"

section \<open>Notions of the renderer\<close>

text \<open>The name of the element \<open>e\<close> of the store, in lower case, is the name of the tag.\<close>

definition node_matches :: "store \<Rightarrow> nat \<Rightarrow> tagInfo \<Rightarrow> bool" where
  "node_matches h e t = (toLowerCase (nodeName (h ! e)) = name t)"

text \<open>
  What holds of the stacks between two rounds of the loop of \<open>_render\<close>: the stack of
  parents is the fragment followed by the stack of elements, the current parent is its
  top, and every element of the stack is a node of the store.
\<close>

definition stack_ok :: "render_state \<Rightarrow> bool" where
  "stack_ok st =
     (parentStack st = 0 # tagStack st \<and> currentParent st = last (parentStack st)
      \<and> list_all (\<lambda>e. e < length (heap st)) (tagStack st) \<and> 0 < length (heap st))"

text \<open>
  The attributes of an element after \<open>setAttribute\<close> has been called on it for each entry
  of a list in turn.
\<close>

fun attrs_after :: "(string \<times> string) list \<Rightarrow> (string \<times> string) list \<Rightarrow> (string \<times> string) list" where
  "attrs_after [] as = as"
| "attrs_after ((k, v) # kvs) as = attrs_after kvs (put k v as)"

text \<open>The tree of \<open><p>a<b>c</b></p>\<close>.\<close>

definition nested_tree :: "src_node list" where
  "nested_tree = [SElement ''P'' [] [SText ''a'', SElement ''B'' [] [SText ''c'']]]"

text \<open>
  The tree the parser walked, as the renderer would have to rebuild it: every element with
  its lower-cased name, its attributes and its children, one text node for each character,
  no comments.
\<close>

fun source_dom :: "src_node list \<Rightarrow> dom list"
  and source_dom_node :: "src_node \<Rightarrow> dom list" where
  "source_dom [] = []"
| "source_dom (node # nodes) = source_dom_node node @ source_dom nodes"
| "source_dom_node (SText cs) = map (\<lambda>c. DText [c]) cs"
| "source_dom_node (SElement n attrs childNodes) = [DElement (toLowerCase n) attrs (source_dom childNodes)]"
| "source_dom_node (SComment _) = []"

text \<open>Three sibling elements of one name with different attributes.\<close>

definition three_b_tree :: "src_node list" where
  "three_b_tree =
     [SElement ''B'' [(''x'', ''1'')] [SText ''a''],
      SElement ''B'' [(''x'', ''2'')] [SText ''b''],
      SElement ''B'' [(''x'', ''3'')] [SText ''c'']]"

section \<open>Properties\<close>

subsection \<open>Rounding\<close>

text \<open>
  Rounding is monotone, leaves a double as it is, and is exact on the whole numbers below
  \<open>2 ^ 53\<close>; a whole number rounds to a whole number.
\<close>

lemma rne_of_int [simp]: "rne (of_int k) = k"
  by (simp add: rne_def)

lemma rne_floor: "\<lfloor>q\<rfloor> \<le> rne q" "rne q \<le> \<lfloor>q\<rfloor> + 1"
  by (simp_all add: rne_def Let_def)

lemma rne_mono:
  assumes "q1 \<le> q2"
  shows "rne q1 \<le> rne q2"
proof (cases "\<lfloor>q1\<rfloor> = \<lfloor>q2\<rfloor>")
  case True
  then have "q1 - of_int \<lfloor>q1\<rfloor> \<le> q2 - of_int \<lfloor>q2\<rfloor>" using assms by simp
  then show ?thesis using True by (auto simp: rne_def Let_def)
next
  case False
  moreover have "\<lfloor>q1\<rfloor> \<le> \<lfloor>q2\<rfloor>" using assms by (rule floor_mono)
  ultimately have "\<lfloor>q1\<rfloor> + 1 \<le> \<lfloor>q2\<rfloor>" by simp
  with rne_floor(2) [of q1] rne_floor(1) [of q2] show ?thesis by linarith
qed

lemma rne_ge: "of_int k \<le> q \<Longrightarrow> k \<le> rne q"
  using rne_mono [of "of_int k" q] by simp

lemma rne_le: "q \<le> of_int k \<Longrightarrow> rne q \<le> k"
  using rne_mono [of q "of_int k"] by simp

lemma halvings_bounds:
  "1 \<le> a \<Longrightarrow> halvings k a \<le> k \<and> 2 ^ halvings k a \<le> a
     \<and> (halvings k a < k \<longrightarrow> a < 2 * 2 ^ halvings k a)"
proof (induction k arbitrary: a)
  case 0
  then show ?case by simp
next
  case (Suc k)
  show ?case
  proof (cases "a < 2")
    case True
    then show ?thesis using Suc.prems by simp
  next
    case False
    then have "1 \<le> a / 2" by simp
    from Suc.IH [OF this] False show ?thesis by (simp add: field_simps)
  qed
qed

lemma doublings_bounds:
  "0 < a \<Longrightarrow> a < 2 \<Longrightarrow> doublings k a \<le> k \<and> a * 2 ^ doublings k a < 2
     \<and> (doublings k a < k \<longrightarrow> 1 \<le> a * 2 ^ doublings k a)"
proof (induction k arbitrary: a)
  case 0
  then show ?case by simp
next
  case (Suc k)
  show ?case
  proof (cases "1 \<le> a")
    case True
    then show ?thesis using Suc.prems by simp
  next
    case False
    then have "0 < 2 * a" "2 * a < 2" using Suc.prems by simp_all
    from Suc.IH [OF this] False show ?thesis by (simp add: field_simps)
  qed
qed

lemma doublings_pos: "a < 1 \<Longrightarrow> 0 < k \<Longrightarrow> 0 < doublings k a"
  by (cases k) simp_all

lemma exponent_bounds:
  assumes "0 < a"
  shows "- 1022 \<le> exponent a" "exponent a \<le> 1024"
    "exponent a < 1024 \<Longrightarrow> a < 2 powi (exponent a + 1)"
    "- 1022 < exponent a \<Longrightarrow> 2 powi exponent a \<le> a"
proof -
  show "- 1022 \<le> exponent a" "exponent a \<le> 1024"
    using halvings_bounds [of a 1024] doublings_bounds [of a 1022] assms
    by (auto simp: exponent_def)
  show "a < 2 powi (exponent a + 1)" if "exponent a < 1024"
  proof (cases "1 \<le> a")
    case True
    with that have "halvings 1024 a < 1024" by (simp add: exponent_def)
    with halvings_bounds [OF True, of 1024] have "a < 2 * 2 ^ halvings 1024 a" by simp
    then show ?thesis using True
      by (simp add: exponent_def power_int_add)
  next
    case False
    let ?d = "doublings 1022 a"
    from False assms doublings_bounds [of a 1022] have "a * 2 ^ ?d < 2" by simp
    then have "a < 2 / 2 ^ ?d" by (simp add: field_simps)
    moreover have "(2::real) powi (1 - int ?d) = 2 powi 1 / 2 powi int ?d"
      by (rule power_int_diff) simp
    then have "(2::real) powi (- int ?d + 1) = 2 / 2 ^ ?d"
      by (simp add: add.commute)
    ultimately have "a < 2 powi (- int ?d + 1)" by (simp only:)
    then show ?thesis using False by (simp only: exponent_def if_False)
  qed
  show "2 powi exponent a \<le> a" if "- 1022 < exponent a"
  proof (cases "1 \<le> a")
    case True
    with halvings_bounds [OF True, of 1024] show ?thesis by (simp add: exponent_def)
  next
    case False
    let ?d = "doublings 1022 a"
    from that False have "?d < 1022" by (simp add: exponent_def)
    with False assms doublings_bounds [of a 1022] have "1 \<le> a * 2 ^ ?d" by simp
    then show ?thesis using False
      by (simp add: exponent_def power_int_minus field_simps)
  qed
qed


lemma pow2_le: "m \<le> n \<Longrightarrow> (2::real) powi m \<le> 2 powi n"
  by (rule power_int_increasing) simp_all

lemma pow2_less: "m < n \<Longrightarrow> (2::real) powi m < 2 powi n"
  by (rule power_int_strict_increasing) simp_all

lemma exponent_mono:
  assumes "0 < a" "a \<le> b"
  shows "exponent a \<le> exponent b"
proof (rule ccontr)
  assume "\<not> exponent a \<le> exponent b"
  then have lt: "exponent b < exponent a" by simp
  have b: "0 < b" using assms by simp
  from lt exponent_bounds(1) [OF b] have "- 1022 < exponent a" by simp
  from exponent_bounds(4) [OF assms(1) this] have "2 powi exponent a \<le> a" .
  moreover from lt exponent_bounds(2) [OF assms(1)] have "exponent b < 1024" by simp
  from exponent_bounds(3) [OF b this] have "b < 2 powi (exponent b + 1)" .
  moreover have "(2::real) powi (exponent b + 1) \<le> 2 powi exponent a"
    using lt by (intro pow2_le) simp
  ultimately show False using assms(2) by simp
qed

lemma exponent_eq:
  assumes "2 powi k \<le> a" "a < 2 powi (k + 1)" "- 1022 \<le> k" "k \<le> 1023"
  shows "exponent a = k"
proof -
  have a: "0 < a" using assms(1) by (rule less_le_trans [rotated]) simp
  show ?thesis
  proof (rule ccontr)
    assume ne: "exponent a \<noteq> k"
    show False
    proof (cases "k < exponent a")
      case True
      with assms(3) have "- 1022 < exponent a" by simp
      from exponent_bounds(4) [OF a this] have "2 powi exponent a \<le> a" .
      moreover have "(2::real) powi (k + 1) \<le> 2 powi exponent a"
        using True by (intro pow2_le) simp
      ultimately show False using assms(2) by simp
    next
      case False
      with ne have lt: "exponent a < k" by simp
      with assms(4) have "exponent a < 1024" by simp
      from exponent_bounds(3) [OF a this] have "a < 2 powi (exponent a + 1)" .
      moreover have "(2::real) powi (exponent a + 1) \<le> 2 powi k"
        using lt by (intro pow2_le) simp
      ultimately show False using assms(1) by simp
    qed
  qed
qed

lemma exponent_subnormal:
  assumes "0 < a" "a < 2 powi (- 1022)"
  shows "exponent a = - 1022"
proof (rule ccontr)
  assume "exponent a \<noteq> - 1022"
  with exponent_bounds(1) [OF assms(1)] have lt: "- 1022 < exponent a" by simp
  from exponent_bounds(4) [OF assms(1) this] have "2 powi exponent a \<le> a" .
  moreover have "(2::real) powi (- 1022) \<le> 2 powi exponent a"
    using lt by (intro pow2_le) simp
  ultimately show False using assms(2) by simp
qed

text \<open>The pieces of \<open>round_pos\<close>.\<close>

lemma ulp_pos [simp]: "0 < ulp a" "0 \<le> ulp a"
  by (simp_all add: ulp_def)

lemma ulp_nz [simp]: "ulp a \<noteq> 0"
  by (simp add: ulp_def)

lemma ulp_times: "2 powi 52 * ulp a = 2 powi exponent a" "2 powi 53 * ulp a = 2 powi (exponent a + 1)"
proof -
  have "(2::real) powi (52 + (exponent a - 52)) = 2 powi 52 * 2 powi (exponent a - 52)"
    by (rule power_int_add) simp
  then show "2 powi 52 * ulp a = 2 powi exponent a" by (simp add: ulp_def)
  have "(2::real) powi (53 + (exponent a - 52)) = 2 powi 53 * 2 powi (exponent a - 52)"
    by (rule power_int_add) simp
  then show "2 powi 53 * ulp a = 2 powi (exponent a + 1)" by (simp add: ulp_def add.commute)
qed

lemma mant_bounds:
  assumes "0 < a"
  shows "0 \<le> mant a"
    and "exponent a < 1024 \<Longrightarrow> mant a \<le> 2 ^ 53"
    and "- 1022 < exponent a \<Longrightarrow> 2 ^ 52 \<le> mant a"
proof -
  have "0 \<le> a / ulp a" using assms ulp_pos [of a] by (intro divide_nonneg_pos) simp_all
  then have "of_int 0 \<le> a / ulp a" by simp
  then show "0 \<le> mant a" unfolding mant_def by (rule rne_ge)
  show "mant a \<le> 2 ^ 53" if "exponent a < 1024"
  proof -
    from exponent_bounds(3) [OF assms that] have "a < 2 powi 53 * ulp a"
      by (simp only: ulp_times)
    then have "a / ulp a \<le> 2 ^ 53" by (simp add: field_simps)
    then have "a / ulp a \<le> of_int (2 ^ 53)" by simp
    then show ?thesis unfolding mant_def by (rule rne_le)
  qed
  show "2 ^ 52 \<le> mant a" if "- 1022 < exponent a"
  proof -
    from exponent_bounds(4) [OF assms that] have "2 powi 52 * ulp a \<le> a"
      by (simp only: ulp_times)
    then have "2 ^ 52 \<le> a / ulp a" by (simp add: field_simps)
    then have "of_int (2 ^ 52) \<le> a / ulp a" by simp
    then show ?thesis unfolding mant_def by (rule rne_ge)
  qed
qed

lemma value_bounds:
  assumes "0 < a"
  shows "0 \<le> of_int (mant a) * ulp a"
    and "exponent a < 1024 \<Longrightarrow> of_int (mant a) * ulp a \<le> 2 powi (exponent a + 1)"
    and "- 1022 < exponent a \<Longrightarrow> 2 powi exponent a \<le> of_int (mant a) * ulp a"
proof -
  show "0 \<le> of_int (mant a) * ulp a"
    using mant_bounds(1) [OF assms] ulp_pos [of a] by (intro mult_nonneg_nonneg) simp_all
  show "of_int (mant a) * ulp a \<le> 2 powi (exponent a + 1)" if "exponent a < 1024"
  proof -
    from mant_bounds(2) [OF assms that] have "real_of_int (mant a) \<le> 2 powi 53"
      by (metis of_int_le_iff of_int_numeral of_int_power power_int_numeral)
    then have "of_int (mant a) * ulp a \<le> 2 powi 53 * ulp a"
      by (intro mult_right_mono) simp_all
    then show ?thesis by (simp only: ulp_times)
  qed
  show "2 powi exponent a \<le> of_int (mant a) * ulp a" if "- 1022 < exponent a"
  proof -
    from mant_bounds(3) [OF assms that] have "2 powi 52 \<le> real_of_int (mant a)"
      by (metis of_int_le_iff of_int_numeral of_int_power power_int_numeral)
    then have "2 powi 52 * ulp a \<le> of_int (mant a) * ulp a"
      by (intro mult_right_mono) simp_all
    then show ?thesis by (simp only: ulp_times)
  qed
qed


lemma round_pos_alt:
  assumes "0 < a"
  shows "round_pos a =
     (if exponent a = 1024 \<or> 2 powi 1024 \<le> of_int (mant a) * ulp a then PosInfinity
      else Num (of_int (mant a) * ulp a))"
proof (cases "exponent a = 1024")
  case True
  then show ?thesis by (simp add: round_pos_def)
next
  case False
  with exponent_bounds(2) [OF assms] have e: "exponent a < 1024" by simp
  have "(exponent a = 1023 \<and> mant a = 2 ^ 53) = (2 powi 1024 \<le> of_int (mant a) * ulp a)"
  proof
    assume "exponent a = 1023 \<and> mant a = 2 ^ 53"
    then have "real_of_int (mant a) = 2 powi 53" and "exponent a + 1 = 1024" by simp_all
    then have "of_int (mant a) * ulp a = 2 powi 1024" by (simp only: ulp_times)
    then show "2 powi 1024 \<le> of_int (mant a) * ulp a" by simp
  next
    assume ov: "2 powi 1024 \<le> of_int (mant a) * ulp a"
    have e1: "exponent a = 1023"
    proof (rule ccontr)
      assume "exponent a \<noteq> 1023"
      with e have "exponent a + 1 < 1024" by simp
      then have "(2::real) powi (exponent a + 1) < 2 powi 1024" by (rule pow2_less)
      with value_bounds(2) [OF assms e] ov show False by simp
    qed
    have "mant a = 2 ^ 53"
    proof (rule ccontr)
      assume "mant a \<noteq> 2 ^ 53"
      with mant_bounds(2) [OF assms e] have "mant a < 2 ^ 53" by simp
      then have "real_of_int (mant a) < 2 powi 53"
        by (metis of_int_less_iff of_int_numeral of_int_power power_int_numeral)
      then have "of_int (mant a) * ulp a < 2 powi 53 * ulp a"
        by (intro mult_strict_right_mono) simp_all
      then have "of_int (mant a) * ulp a < 2 powi (exponent a + 1)" by (simp only: ulp_times)
      with ov e1 show False by simp
    qed
    with e1 show "exponent a = 1023 \<and> mant a = 2 ^ 53" by simp
  qed
  then show ?thesis using False by (simp add: round_pos_def)
qed

lemma round_pos_exact:
  assumes "0 < a" "exponent a < 1024" "a / ulp a = of_int m"
  shows "round_pos a = Num a"
proof -
  have m: "mant a = m" by (simp add: mant_def assms(3))
  have "of_int m * ulp a = a / ulp a * ulp a" by (simp only: assms(3))
  also have "\<dots> = a" by simp
  finally have v: "of_int (mant a) * ulp a = a" by (simp only: m)
  have "a < 2 powi (exponent a + 1)" by (rule exponent_bounds(3) [OF assms(1,2)])
  also have "\<dots> \<le> 2 powi 1024" using assms(2) by (intro pow2_le) simp
  finally have "\<not> 2 powi 1024 \<le> a" by simp
  then show ?thesis using assms(2) by (simp add: round_pos_alt [OF assms(1)] v)
qed

lemma round_pos_cases:
  assumes "0 < a"
  shows "round_pos a = PosInfinity \<or> (\<exists>v. round_pos a = Num v \<and> 0 \<le> v)"
  using value_bounds(1) [OF assms] by (simp add: round_pos_alt [OF assms])

lemma round_pos_mono:
  assumes "0 < a" "a \<le> b"
  shows "js_le (round_pos a) (round_pos b)"
proof -
  have b: "0 < b" using assms by simp
  note e = exponent_mono [OF assms]
  show ?thesis
  proof (cases "exponent b = 1024")
    case True
    then have "round_pos b = PosInfinity" by (simp add: round_pos_def)
    then show ?thesis using round_pos_cases [OF assms(1)] by auto
  next
    case False
    with exponent_bounds(2) [OF b] have eb: "exponent b < 1024" by simp
    with e have ea: "exponent a < 1024" by simp
    have le: "of_int (mant a) * ulp a \<le> of_int (mant b) * ulp b"
    proof (cases "exponent a = exponent b")
      case True
      then have u: "ulp a = ulp b" by (simp add: ulp_def)
      have "a / ulp b \<le> b / ulp b" using assms(2) by (intro divide_right_mono) simp_all
      then have "mant a \<le> mant b" unfolding mant_def u by (rule rne_mono)
      then show ?thesis unfolding u by (intro mult_right_mono) simp_all
    next
      case False
      with e have lt: "exponent a < exponent b" by simp
      with exponent_bounds(1) [OF assms(1)] have "- 1022 < exponent b" by simp
      from value_bounds(3) [OF b this] have "2 powi exponent b \<le> of_int (mant b) * ulp b" .
      moreover have "(2::real) powi (exponent a + 1) \<le> 2 powi exponent b"
        using lt by (intro pow2_le) simp
      moreover note value_bounds(2) [OF assms(1) ea]
      ultimately show ?thesis by linarith
    qed
    show ?thesis using ea eb le by (auto simp: round_pos_alt [OF assms(1)] round_pos_alt [OF b])
  qed
qed

lemma js_le_neg: "js_le a b \<Longrightarrow> js_le (js_neg b) (js_neg a)"
  by (cases a; cases b) simp_all

lemma to_double_mono:
  assumes "x \<le> y"
  shows "js_le (to_double x) (to_double y)"
proof -
  consider "x = 0" | "0 < x" | "x < 0" by linarith
  then show ?thesis
  proof cases
    case 1
    show ?thesis
    proof (cases "y = 0")
      case True
      then show ?thesis using 1 by (simp add: to_double_def)
    next
      case False
      with assms 1 have "0 < y" by simp
      with round_pos_cases [OF this] 1 show ?thesis by (auto simp: to_double_def)
    qed
  next
    case 2
    with assms have "0 < y" by simp
    with 2 round_pos_mono [OF 2 assms] show ?thesis by (simp add: to_double_def)
  next
    case 3
    then have nx: "0 < - x" by simp
    consider "y < 0" | "y = 0" | "0 < y" by linarith
    then show ?thesis
    proof cases
      case 1
      then have "0 < - y" "- y \<le> - x" using assms by simp_all
      from js_le_neg [OF round_pos_mono [OF this]] 3 1 show ?thesis by (simp add: to_double_def)
    next
      case 2
      with round_pos_cases [OF nx] 3 show ?thesis by (auto simp: to_double_def)
    next
      case 3
      with round_pos_cases [OF nx] round_pos_cases [OF 3] \<open>x < 0\<close> show ?thesis
        by (auto simp: to_double_def)
    qed
  qed
qed

lemma round_pos_idem:
  assumes "0 < a" "round_pos a = Num v" "0 < v"
  shows "round_pos v = Num v"
proof -
  from assms(2) have e: "exponent a < 1024"
    and v: "v = of_int (mant a) * ulp a" and nov: "v < 2 powi 1024"
    using exponent_bounds(2) [OF assms(1)] by (auto simp: round_pos_alt [OF assms(1)] split: if_splits)
  show ?thesis
  proof (cases "mant a = 2 ^ 53")
    case True
    then have "real_of_int (mant a) = 2 powi 53" by simp
    then have vp: "v = 2 powi (exponent a + 1)" by (simp only: v ulp_times)
    have e1: "exponent a + 1 \<le> 1023"
    proof (rule ccontr)
      assume "\<not> exponent a + 1 \<le> 1023"
      then have "(2::real) powi 1024 \<le> 2 powi (exponent a + 1)" by (intro pow2_le) simp
      with nov vp show False by simp
    qed
    have "v < 2 powi (exponent a + 1 + 1)" unfolding vp by (intro pow2_less) simp
    moreover have "2 powi (exponent a + 1) \<le> v" by (simp add: vp)
    ultimately have ev: "exponent v = exponent a + 1"
      using e1 exponent_bounds(1) [OF assms(1)] by (intro exponent_eq) simp_all
    have "2 powi 52 * ulp v = 2 powi exponent v" by (rule ulp_times)
    also have "\<dots> = v" by (simp only: ev vp [symmetric])
    finally have "v / ulp v = 2 powi 52 * ulp v / ulp v" by simp
    also have "\<dots> = 2 powi 52" by simp
    finally have "v / ulp v = 2 powi 52" .
    then have "v / ulp v = of_int (2 ^ 52)" by simp
    then show ?thesis using e1 by (intro round_pos_exact [OF assms(3)]) (simp_all add: ev)
  next
    case False
    with mant_bounds(2) [OF assms(1) e] have "mant a < 2 ^ 53" by simp
    then have "real_of_int (mant a) < 2 powi 53"
      by (metis of_int_less_iff of_int_numeral of_int_power power_int_numeral)
    then have "v < 2 powi 53 * ulp a" unfolding v by (intro mult_strict_right_mono) simp_all
    then have up: "v < 2 powi (exponent a + 1)" by (simp only: ulp_times)
    have ev: "exponent v = exponent a"
    proof (cases "2 powi exponent a \<le> v")
      case True
      then show ?thesis using up e exponent_bounds(1) [OF assms(1)]
        by (intro exponent_eq) simp_all
    next
      case False
      with value_bounds(3) [OF assms(1)] v have "\<not> - 1022 < exponent a" by auto
      with exponent_bounds(1) [OF assms(1)] have m: "exponent a = - 1022" by simp
      with False have "v < 2 powi (- 1022)" by simp
      from exponent_subnormal [OF assms(3) this] m show ?thesis by simp
    qed
    then have "ulp v = ulp a" by (simp add: ulp_def)
    then have "v / ulp v = of_int (mant a)" by (simp add: v)
    then show ?thesis using e by (intro round_pos_exact [OF assms(3)]) (simp_all add: ev)
  qed
qed

lemma to_double_idem:
  assumes "to_double x = Num v"
  shows "to_double v = Num v"
proof -
  consider "x = 0" | "0 < x" | "x < 0" by linarith
  then show ?thesis
  proof cases
    case 1
    with assms show ?thesis by (simp add: to_double_def)
  next
    case 2
    with assms have r: "round_pos x = Num v" by (simp add: to_double_def)
    with round_pos_cases [OF 2] have "0 \<le> v" by auto
    show ?thesis
    proof (cases "v = 0")
      case True
      then show ?thesis by (simp add: to_double_def)
    next
      case False
      with \<open>0 \<le> v\<close> have "0 < v" by simp
      from round_pos_idem [OF 2 r this] this show ?thesis by (simp add: to_double_def)
    qed
  next
    case 3
    then have nx: "0 < - x" by simp
    from assms 3 have "js_neg (round_pos (- x)) = Num v" by (simp add: to_double_def)
    then have r: "round_pos (- x) = Num (- v)" by (cases "round_pos (- x)") simp_all
    with round_pos_cases [OF nx] have "0 \<le> - v" by auto
    show ?thesis
    proof (cases "v = 0")
      case True
      then show ?thesis by (simp add: to_double_def)
    next
      case False
      with \<open>0 \<le> - v\<close> have "0 < - v" by simp
      from round_pos_idem [OF nx r this] this show ?thesis by (simp add: to_double_def)
    qed
  qed
qed

lemma to_double_not_NaN [simp]: "to_double x \<noteq> NaN"
proof -
  have "round_pos a \<noteq> NaN" for a by (simp add: round_pos_def)
  moreover have "js_neg n \<noteq> NaN" if "n \<noteq> NaN" for n using that by (cases n) simp_all
  ultimately show ?thesis by (simp add: to_double_def)
qed

lemma to_double_0 [simp]: "to_double 0 = Num 0"
  by (simp add: to_double_def)


lemma exponent_nat:
  assumes "0 < n"
  shows "0 \<le> exponent (real n)"
  using assms by (simp add: exponent_def)

lemma ulp_small:
  assumes "0 \<le> exponent a" "exponent a \<le> 52"
  shows "a / ulp a = a * 2 ^ nat (52 - exponent a)"
proof -
  have "ulp a = 2 powi (- (52 - exponent a))" by (simp add: ulp_def)
  also have "\<dots> = inverse (2 powi (52 - exponent a))" by (rule power_int_minus)
  also have "(2::real) powi (52 - exponent a) = 2 ^ nat (52 - exponent a)"
    using assms by (simp add: power_int_def)
  finally show ?thesis by (simp add: divide_inverse)
qed

lemma ulp_large:
  assumes "52 \<le> exponent a"
  shows "ulp a = of_int (2 ^ nat (exponent a - 52))"
  using assms by (simp add: ulp_def power_int_def)

lemma round_pos_nat_small:
  assumes "0 < n" "exponent (real n) \<le> 52"
  shows "round_pos (real n) = Num (real n)"
proof -
  let ?a = "real n"
  have a: "0 < ?a" using assms(1) by simp
  have "?a / ulp ?a = ?a * 2 ^ nat (52 - exponent ?a)"
    using exponent_nat [OF assms(1)] assms(2) by (rule ulp_small)
  also have "\<dots> = of_int (int n * 2 ^ nat (52 - exponent ?a))" by simp
  finally have eq: "?a / ulp ?a = of_int (int n * 2 ^ nat (52 - exponent ?a))" .
  have "exponent ?a < 1024" using assms(2) by simp
  from round_pos_exact [OF a this eq] show ?thesis .
qed

lemma to_double_nat_exact:
  assumes "n < 2 ^ 53"
  shows "to_double (real n) = Num (real n)"
proof (cases "n = 0")
  case True
  then show ?thesis by simp
next
  case False
  then have n: "0 < n" by simp
  let ?a = "real n"
  have a: "0 < ?a" using n by simp
  have "exponent ?a \<le> 52"
  proof (rule ccontr)
    assume "\<not> exponent ?a \<le> 52"
    then have e: "53 \<le> exponent ?a" by simp
    then have "- 1022 < exponent ?a" by simp
    from exponent_bounds(4) [OF a this] have "2 powi exponent ?a \<le> ?a" .
    moreover have "(2::real) powi 53 \<le> 2 powi exponent ?a" using e by (rule pow2_le)
    moreover have "?a < 2 ^ 53" using assms
      by (metis of_nat_less_iff of_nat_numeral of_nat_power)
    ultimately show False by simp
  qed
  from round_pos_nat_small [OF n this] n show ?thesis by (simp add: to_double_def)
qed

lemma to_double_nat_whole:
  assumes "to_double (real n) = Num v"
  shows "\<exists>k. 0 \<le> k \<and> v = of_int k"
proof (cases "n = 0")
  case True
  with assms have "v = of_int 0" by simp
  then show ?thesis by blast
next
  case False
  then have n: "0 < n" by simp
  let ?a = "real n"
  have a: "0 < ?a" using n by simp
  from assms n have r: "round_pos ?a = Num v" by (simp add: to_double_def)
  show ?thesis
  proof (cases "exponent ?a \<le> 52")
    case True
    from round_pos_nat_small [OF n this] r have "v = of_int (int n)" by simp
    then show ?thesis by (intro exI [of _ "int n"]) simp
  next
    case False
    then have "52 \<le> exponent ?a" by simp
    from ulp_large [OF this] r
    have "v = of_int (mant ?a * 2 ^ nat (exponent ?a - 52))"
      by (simp add: round_pos_alt [OF a] split: if_splits)
    moreover have "0 \<le> mant ?a * 2 ^ nat (exponent ?a - 52)"
      using mant_bounds(1) [OF a] by simp
    ultimately show ?thesis by blast
  qed
qed

subsection \<open>The length as a number\<close>

lemma js_less_irrefl [simp]: "\<not> js_less a a"
  by (cases a) simp_all

lemma num_of_nat_small: "n < 2 ^ 53 \<Longrightarrow> num_of_nat n = Num (real n)"
  by (simp add: num_of_nat_def to_double_nat_exact)

lemma num_of_nat_0 [simp]: "num_of_nat 0 = Num 0"
  by (simp add: num_of_nat_def)

lemma num_of_nat_nonneg: "js_le (Num 0) (num_of_nat n)"
  using to_double_mono [of 0 "real n"] by (simp add: num_of_nat_def)

lemma num_of_nat_pos: "0 < n \<Longrightarrow> js_le (Num 1) (num_of_nat n)"
  using to_double_mono [of 1 "real n"] to_double_nat_exact [of 1] by (simp add: num_of_nat_def)

lemma num_of_nat_cases:
  obtains "num_of_nat n = PosInfinity"
  | v where "num_of_nat n = Num v" "0 \<le> v" "of_int \<lfloor>v\<rfloor> = v" "to_double v = Num v"
proof (cases "num_of_nat n")
  case (Num v)
  then have d: "to_double (real n) = Num v" by (simp add: num_of_nat_def)
  from to_double_nat_whole [OF d] obtain k where "0 \<le> k" "v = of_int k" by blast
  then have "0 \<le> v" "of_int \<lfloor>v\<rfloor> = v" by simp_all
  with Num to_double_idem [OF d] that(2) show ?thesis by blast
next
  case PosInfinity
  then show ?thesis by (rule that(1))
next
  case NegInfinity
  with num_of_nat_nonneg [of n] show ?thesis by simp
next
  case NaN
  then show ?thesis by (simp add: num_of_nat_def)
qed

lemma num_of_nat_refl: "js_le (num_of_nat n) (num_of_nat n)"
  by (rule num_of_nat_cases [of n]) simp_all

subsection \<open>The delay between characters\<close>

lemma speed_default:
  "(if js_greater v (Num 0) then v else Num 1) = (if js_le v (Num 0) \<or> v = NaN then Num 1 else v)"
  by (cases v) (auto simp: js_greater_def)

lemma bounded_less: "(js_less m PosInfinity \<and> js_less m p) = (m \<noteq> PosInfinity \<and> js_less m p)"
  by (cases m; cases p) auto

text \<open>
  Claim C5. Once the speed attribute has been set, \<open>_calculateCharDelay\<close> computes the
  delay of the specification: a speed that is not positive (or not a number) is replaced
  by 1, no characters give 0, and otherwise the base delay \<open>50 / speed\<close> is stretched to
  \<open>min / total\<close> or squeezed to \<open>max / total\<close> as the projected duration demands. Ten
  characters with the bounds 2000 and 5000 at speed 1 give 200.
\<close>

theorem calculateCharDelay_is_delayPerChar:
  assumes "oldValue \<noteq> newValue"
  shows "calculateCharDelay (attributeChangedCallback parseFloat ''speed'' oldValue newValue s) =
         delayPerChar (length (parsedNodes s)) (parseFloat newValue) (minDuration s) (maxDuration s)
       \<and> delayPerChar 10 (Num 1) (Num 2000) (Num 5000) = Num 200"
proof
  let ?s = "attributeChangedCallback parseFloat ''speed'' oldValue newValue s"
  have sp: "speed ?s = (if js_le (parseFloat newValue) (Num 0) \<or> parseFloat newValue = NaN
                        then Num 1 else parseFloat newValue)"
    using assms
    by (cases "parseFloat newValue") (simp_all add: attributeChangedCallback_def js_greater_def)
  have rest: "parsedNodes ?s = parsedNodes s" "minDuration ?s = minDuration s"
    "maxDuration ?s = maxDuration s"
    using assms by (simp_all add: attributeChangedCallback_def Let_def)
  show "calculateCharDelay ?s =
         delayPerChar (length (parsedNodes s)) (parseFloat newValue) (minDuration s) (maxDuration s)"
    unfolding calculateCharDelay_def delayPerChar_def Let_def sp rest js_greater_def bounded_less
    by (rule refl)
  show "delayPerChar 10 (Num 1) (Num 2000) (Num 5000) = Num 200"
    by code_simp
qed

theorem calculateCharDelay_is_delayPerChar_witness:
  "(None :: string option) \<noteq> Some ''1''
   \<and> calculateCharDelay
       (attributeChangedCallback (\<lambda>v. Num 1) ''speed'' None (Some ''1'')
          (constructed\<lparr>parsedNodes := ten_chars, minDuration := Num 2000, maxDuration := Num 5000\<rparr>))
     = Num 200"
  using calculateCharDelay_is_delayPerChar [of None "Some ''1''" "\<lambda>v. Num 1"
      "constructed\<lparr>parsedNodes := ten_chars, minDuration := Num 2000, maxDuration := Num 5000\<rparr>"]
  by (simp add: ten_chars_def)

subsection \<open>Ratios over an empty sequence\<close>

text \<open>
  Claim C3. With no characters the \<open>progress\<close> getter and the delay are 0, but \<open>seek\<close>
  divides the index by the length without the guard of the getter: after
  \<open>setText('')\<close> the event of \<open>seek(0.5)\<close> carries the position 0 and the progress NaN.
\<close>

theorem seek_progress_unguarded:
  "setText (\<lambda>content. []) [] constructed = Inr constructed
   \<and> progress constructed = Num 0
   \<and> calculateCharDelay constructed = Num 0
   \<and> map_sum id dispatched (seek (Num (1/2)) constructed) = Inr [EvSeek (Num 0) NaN]"
  by (simp add: setText_def constructed_def cancelAnimation_def parseContent_def render_def
     render_fragment_def render_init_def num_of_nat_def fragment_children_def List.map_filter_def
     progress_def calculateCharDelay_def seek_def js_ge_def dispatchEvent_def Let_def)

subsection \<open>Rendering returns\<close>

lemma render_loop_total:
  "\<not> js_less (num_of_nat (i + length ns)) idx \<Longrightarrow> \<exists>st'. render_loop ns i idx st = Inr st'"
proof (induction ns arbitrary: i st)
  case Nil
  then show ?case by simp
next
  case (Cons n ns)
  from Cons.prems have "\<not> js_less (num_of_nat (Suc i + length ns)) idx" by simp
  from Cons.IH [OF this] show ?case by simp
qed

lemma render_total:
  assumes "\<not> js_less (num_of_nat (length (parsedNodes s))) (currentIndex s)"
  shows "\<exists>st. render_fragment (parsedNodes s) (currentIndex s) = Inr st
             \<and> render s = Inr (s\<lparr>contentElement := fragment_children (heap st)\<rparr>)"
proof -
  from assms have "\<not> js_less (num_of_nat (0 + length (parsedNodes s))) (currentIndex s)" by simp
  from render_loop_total [OF this]
  obtain st where "render_loop (parsedNodes s) 0 (currentIndex s) render_init = Inr st" by blast
  then show ?thesis by (simp add: render_def render_fragment_def)
qed

text \<open>At index 0 the loop does not run and the fragment stays empty.\<close>

lemma render_fragment_zero: "render_fragment ns (Num 0) = Inr render_init"
  by (cases ns) (simp_all add: render_fragment_def num_of_nat_def)

lemma fragment_children_init: "fragment_children (heap render_init) = []"
  by (simp add: render_init_def fragment_children_def List.map_filter_def)

lemma render_zero:
  "currentIndex s = Num 0 \<Longrightarrow> render s = Inr (s\<lparr>contentElement := []\<rparr>)"
  by (simp add: render_def render_fragment_zero fragment_children_init)

subsection \<open>Cancelling the pending frame\<close>

lemma cancel_fields:
  "parsedNodes (cancelAnimation s) = parsedNodes s"
  "currentIndex (cancelAnimation s) = currentIndex s"
  "isPlaying (cancelAnimation s) = isPlaying s"
  "isPaused (cancelAnimation s) = isPaused s"
  "dispatched (cancelAnimation s) = dispatched s"
  "frameCounter (cancelAnimation s) = frameCounter s"
  "contentElement (cancelAnimation s) = contentElement s"
  by (simp_all add: cancelAnimation_def split: option.splits)

subsection \<open>The target of a seek\<close>

lemma clamp_code:
  "js_le (Num 0) l \<Longrightarrow> Math_max (Num 0) (Math_min p l) = clamp p (Num 0) l"
  by (cases p; cases l) (auto simp: clamp_def)

lemma seek_target_code:
  "(if js_ge p (Num 0) \<and> js_le p (Num 1) then Math_floor (js_mul p (num_of_nat n))
    else Math_max (Num 0) (Math_min p (num_of_nat n))) = seek_target p n"
  by (simp add: seek_target_def js_ge_def clamp_code [OF num_of_nat_nonneg])

text \<open>The rounded product of a double with a fraction lies between 0 and the double.\<close>

lemma fraction_bounds:
  assumes "0 \<le> x" "x \<le> 1" "0 \<le> v" "to_double v = Num v"
  obtains w where "to_double (x * v) = Num w" "0 \<le> w" "w \<le> v"
proof -
  have "x * v \<le> 1 * v" using assms by (intro mult_right_mono) simp_all
  then have "x * v \<le> v" by simp
  from to_double_mono [OF this] have up: "js_le (to_double (x * v)) (Num v)"
    by (simp add: assms(4))
  have "0 \<le> x * v" using assms by simp
  from to_double_mono [OF this] have lo: "js_le (Num 0) (to_double (x * v))" by simp
  show ?thesis
  proof (cases "to_double (x * v)")
    case (Num w)
    with up lo that show ?thesis by simp
  qed (use up lo in simp_all)
qed

lemma floor_bounds:
  assumes "0 \<le> w" "w \<le> v"
  shows "0 \<le> real_of_int \<lfloor>w\<rfloor>" "real_of_int \<lfloor>w\<rfloor> \<le> v"
proof -
  show "0 \<le> real_of_int \<lfloor>w\<rfloor>" using assms(1) by simp
  have "real_of_int \<lfloor>w\<rfloor> \<le> w" by (rule of_int_floor_le)
  then show "real_of_int \<lfloor>w\<rfloor> \<le> v" using assms(2) by (rule order_trans)
qed

lemma clamp_bounds:
  assumes "js_le (Num 0) l"
  shows "\<not> js_less l (clamp p (Num 0) l)"
    and "p \<noteq> NaN \<Longrightarrow> js_le (Num 0) (clamp p (Num 0) l) \<and> js_le (clamp p (Num 0) l) l"
  using assms by (cases p; cases l; auto simp: clamp_def)+

lemma seek_target_bounds:
  "\<not> js_less (num_of_nat n) (seek_target p n)"
  "p \<noteq> NaN \<Longrightarrow> n < 2 ^ 53 \<Longrightarrow>
     js_le (Num 0) (seek_target p n) \<and> js_le (seek_target p n) (num_of_nat n)"
proof -
  note c = clamp_bounds [OF num_of_nat_nonneg [of n], where p = p]
  show "\<not> js_less (num_of_nat n) (seek_target p n)"
  proof (cases "js_le (Num 0) p \<and> js_le p (Num 1)")
    case False
    then show ?thesis using c(1) by (auto simp: seek_target_def)
  next
    case True
    then obtain x where p: "p = Num x" and x: "0 \<le> x" "x \<le> 1" by (cases p) simp_all
    show ?thesis
    proof (rule num_of_nat_cases [of n])
      assume "num_of_nat n = PosInfinity"
      then show ?thesis by simp
    next
      fix v assume v: "num_of_nat n = Num v" "0 \<le> v" "of_int \<lfloor>v\<rfloor> = v" "to_double v = Num v"
      from fraction_bounds [OF x v(2) v(4)] obtain w where
        w: "to_double (x * v) = Num w" "0 \<le> w" "w \<le> v" by blast
      from floor_bounds(2) [OF w(2,3)] show ?thesis
        using True by (simp add: seek_target_def p v(1) w(1) not_less del: of_int_floor_le)
    qed
  qed
  show "js_le (Num 0) (seek_target p n) \<and> js_le (seek_target p n) (num_of_nat n)"
    if "p \<noteq> NaN" "n < 2 ^ 53"
  proof (cases "js_le (Num 0) p \<and> js_le p (Num 1)")
    case False
    then show ?thesis using c(2) [OF that(1)] by (auto simp: seek_target_def)
  next
    case True
    then obtain x where p: "p = Num x" and x: "0 \<le> x" "x \<le> 1" by (cases p) simp_all
    have n: "num_of_nat n = Num (real n)" by (rule num_of_nat_small [OF that(2)])
    have "to_double (real n) = Num (real n)" using n by (simp add: num_of_nat_def)
    from fraction_bounds [OF x _ this] obtain w where
      w: "to_double (x * real n) = Num w" "0 \<le> w" "w \<le> real n" by auto
    from floor_bounds [OF w(2,3)] show ?thesis
      using True by (simp add: seek_target_def p n w(1) del: of_int_floor_le)
  qed
qed

subsection \<open>Seeking to the end and completing\<close>

text \<open>
  Claim C9. From any state, \<open>seek(1)\<close> and \<open>complete()\<close> both return, both leave the
  index at the number of characters, and leave the same progress and the same rendered
  children in the content element.
\<close>

theorem seek_one_like_complete:
  "\<exists>s1 s2. seek (Num 1) s = Inr s1 \<and> complete s = Inr s2
       \<and> currentIndex s1 = num_of_nat (length (parsedNodes s))
       \<and> currentIndex s2 = num_of_nat (length (parsedNodes s))
       \<and> progress s1 = progress s2
       \<and> contentElement s1 = contentElement s2"
proof -
  let ?n = "length (parsedNodes s)"
  let ?c = "(cancelAnimation s)\<lparr>currentIndex := num_of_nat ?n, isPlaying := False, isPaused := False\<rparr>"
  let ?k = "(cancelAnimation s)\<lparr>currentIndex := num_of_nat ?n, lastTimestamp := Num 0\<rparr>"
  have tgt: "Math_floor (js_mul (Num 1) (num_of_nat ?n)) = num_of_nat ?n"
    by (rule num_of_nat_cases [of ?n]) simp_all
  have nl: "\<not> js_less (num_of_nat ?n) (num_of_nat ?n)" by simp
  have "\<not> js_less (num_of_nat (length (parsedNodes ?c))) (currentIndex ?c)"
    using nl by (simp add: cancel_fields)
  from render_total [OF this] obtain st where
    st: "render_fragment (parsedNodes s) (num_of_nat ?n) = Inr st"
    and rc: "render ?c = Inr (?c\<lparr>contentElement := fragment_children (heap st)\<rparr>)"
    by (auto simp: cancel_fields)
  have rk: "render ?k = Inr (?k\<lparr>contentElement := fragment_children (heap st)\<rparr>)"
    using st by (simp add: render_def cancel_fields)
  have c: "complete s = Inr (dispatchEvent EvComplete (?c\<lparr>contentElement := fragment_children (heap st)\<rparr>))"
    using rc by (simp add: complete_def)
  have k: "\<exists>s1. seek (Num 1) s = Inr s1 \<and> currentIndex s1 = num_of_nat ?n
           \<and> parsedNodes s1 = parsedNodes s \<and> contentElement s1 = fragment_children (heap st)"
    using rk by (simp add: seek_def Let_def js_ge_def tgt cancel_fields dispatchEvent_def
        requestAnimationFrame_def)
  then obtain s1 where s1: "seek (Num 1) s = Inr s1" "currentIndex s1 = num_of_nat ?n"
     "parsedNodes s1 = parsedNodes s" "contentElement s1 = fragment_children (heap st)" by blast
  show ?thesis
    using s1 c by (simp add: progress_def dispatchEvent_def cancel_fields)
qed

subsection \<open>Starting\<close>

lemma cancel_normal:
  assumes "frames_ok s"
  shows "cancelAnimation s = s\<lparr>frameRequests := [], animationFrame := None\<rparr>"
proof (cases "animationFrame s")
  case None
  then show ?thesis using assms by (simp add: cancelAnimation_def frames_ok_def)
next
  case (Some h)
  then have "0 < h" "removeAll h (frameRequests s) = []"
    using assms by (auto simp: frames_ok_def)
  then show ?thesis using Some by (simp add: cancelAnimation_def)
qed

lemma parse_hi: "parseContent hi_tree = hi_nodes"
  by code_simp

text \<open>
  The component paused on \<open><b>Hi</b>\<close> (content set, started, paused) is not playing, and
  \<open>start()\<close> leaves it as it is: still paused, no \<open>start\<close> event.
\<close>

theorem start_while_paused_counterexample:
  "map_sum id pause (case setText (\<lambda>content. hi_tree) ''<b>Hi</b>'' constructed of
       Inl e \<Rightarrow> Inl e | Inr s \<Rightarrow> start s) = Inr paused_example
   \<and> \<not> get_isPlaying paused_example
   \<and> get_isPaused paused_example
   \<and> start paused_example = Inr paused_example
   \<and> \<not> (\<exists>s'. start paused_example = Inr s' \<and> get_isPlaying s'
              \<and> dispatched s' = dispatched paused_example @ [EvStart])"
  by (simp add: setText_def parse_hi start_def render_zero cancelAnimation_def constructed_def
      pause_def paused_example_def dispatchEvent_def requestAnimationFrame_def get_isPlaying_def
      get_isPaused_def)

text \<open>
  Claim C2, amended. While \<open>_isPlaying\<close> is set, which it is when the component plays and
  when it is paused, \<open>start()\<close> changes nothing and dispatches nothing. Otherwise it cancels
  the pending frame, resets the index and the time anchor, sets the flags to playing,
  renders the empty prefix, dispatches \<open>start\<close> and requests one frame.
\<close>

theorem start_effect:
  assumes "frames_ok s"
  shows "(isPlaying s \<longrightarrow> start s = Inr s)
       \<and> (\<not> isPlaying s \<longrightarrow>
            start s = Inr (s\<lparr>currentIndex := Num 0, lastTimestamp := Num 0, isPlaying := True,
                              isPaused := False, contentElement := [],
                              dispatched := dispatched s @ [EvStart],
                              frameRequests := [Suc (frameCounter s)],
                              frameCounter := Suc (frameCounter s),
                              animationFrame := Some (Suc (frameCounter s))\<rparr>))"
proof (intro conjI impI)
  assume "isPlaying s"
  then show "start s = Inr s" by (simp add: start_def)
next
  assume np: "\<not> isPlaying s"
  let ?s1 = "s\<lparr>frameRequests := [], animationFrame := None, currentIndex := Num 0,
               lastTimestamp := Num 0, isPlaying := True, isPaused := False\<rparr>"
  have "render ?s1 = Inr (?s1\<lparr>contentElement := []\<rparr>)" by (rule render_zero) simp
  then show "start s = Inr (s\<lparr>currentIndex := Num 0, lastTimestamp := Num 0, isPlaying := True,
                              isPaused := False, contentElement := [],
                              dispatched := dispatched s @ [EvStart],
                              frameRequests := [Suc (frameCounter s)],
                              frameCounter := Suc (frameCounter s),
                              animationFrame := Some (Suc (frameCounter s))\<rparr>)"
    using np by (simp add: start_def cancel_normal [OF assms] requestAnimationFrame_def dispatchEvent_def)
qed

theorem start_effect_witness:
  "frames_ok constructed \<and> \<not> isPlaying constructed
   \<and> map_sum id (\<lambda>s. (currentIndex s, get_isPlaying s, dispatched s, frameRequests s)) (start constructed)
       = Inr (Num 0, True, [EvStart], [1])"
  using start_effect [of constructed]
  by (simp add: frames_ok_def constructed_def get_isPlaying_def)

subsection \<open>Seeking\<close>

lemma seek_unfold:
  "\<exists>st. render_fragment (parsedNodes s) (seek_target position (length (parsedNodes s))) = Inr st
     \<and> seek position s =
        Inr (let idx = seek_target position (length (parsedNodes s));
                 s3 = (cancelAnimation s)\<lparr>currentIndex := idx,
                        lastTimestamp := Num 0, contentElement := fragment_children (heap st),
                        dispatched := dispatched s @
                          [EvSeek idx (js_div idx (num_of_nat (length (parsedNodes s))))]\<rparr>
             in if isPlaying s \<and> \<not> isPaused s
                then requestAnimationFrame (s3\<lparr>isPaused := False\<rparr>)
                else s3)"
proof -
  let ?n = "length (parsedNodes s)"
  let ?idx = "seek_target position ?n"
  let ?s2 = "(cancelAnimation s)\<lparr>currentIndex := ?idx, lastTimestamp := Num 0\<rparr>"
  have "\<not> js_less (num_of_nat (length (parsedNodes ?s2))) (currentIndex ?s2)"
    by (simp add: seek_target_bounds cancel_fields)
  from render_total [OF this] obtain st where
    st: "render_fragment (parsedNodes s) ?idx = Inr st"
    and r: "render ?s2 = Inr (?s2\<lparr>contentElement := fragment_children (heap st)\<rparr>)"
    by (auto simp: cancel_fields)
  have "seek position s =
        Inr (let idx = ?idx;
                 s3 = (cancelAnimation s)\<lparr>currentIndex := idx,
                        lastTimestamp := Num 0, contentElement := fragment_children (heap st),
                        dispatched := dispatched s @
                          [EvSeek idx (js_div idx (num_of_nat ?n))]\<rparr>
             in if isPlaying s \<and> \<not> isPaused s
                then requestAnimationFrame (s3\<lparr>isPaused := False\<rparr>)
                else s3)"
  proof (cases "js_ge position (Num 0) \<and> js_le position (Num 1)")
    case True
    then have i: "Math_floor (js_mul position (num_of_nat ?n)) = ?idx"
      using seek_target_code [of position ?n] by simp
    show ?thesis using True r
      by (simp add: seek_def Let_def i dispatchEvent_def cancel_fields)
  next
    case False
    then have i: "Math_max (Num 0) (Math_min position (num_of_nat ?n)) = ?idx"
      using seek_target_code [of position ?n] by auto
    show ?thesis using False r
      by (auto simp add: seek_def Let_def i dispatchEvent_def cancel_fields)
  qed
  with st show ?thesis by blast
qed



subsection \<open>The index and its range\<close>

lemma progress_bounds:
  assumes "index_in_range s" "length (parsedNodes s) < 2 ^ 53"
  shows "js_le (Num 0) (progress s) \<and> js_le (progress s) (Num 1)"
proof (cases "length (parsedNodes s) = 0")
  case True
  then show ?thesis by (simp add: progress_def)
next
  case False
  let ?n = "length (parsedNodes s)"
  have n: "num_of_nat ?n = Num (real ?n)" by (rule num_of_nat_small [OF assms(2)])
  from assms(1) obtain x where i: "currentIndex s = Num x" and x: "0 \<le> x" "x \<le> real ?n"
    by (cases "currentIndex s") (simp_all add: index_in_range_def n)
  have "0 \<le> x / real ?n" "x / real ?n \<le> 1" using x False by (simp_all add: divide_le_eq)
  from to_double_mono [OF this(1)] to_double_mono [OF this(2)] to_double_nat_exact [of 1]
  have "js_le (Num 0) (to_double (x / real ?n))" "js_le (to_double (x / real ?n)) (Num 1)"
    by simp_all
  then show ?thesis using False by (simp add: progress_def i n)
qed

text \<open>
  From a state whose index lies between 0 and the number of characters, every public
  method returns and leaves the index in that range, \<open>seek\<close> for every position other than
  NaN.
\<close>

lemma index_kept:
  assumes "index_in_range s"
  shows "\<exists>s'. start s = Inr s' \<and> index_in_range s'"
    and "index_in_range (pause s)"
    and "index_in_range (resume s)"
    and "\<exists>s'. complete s = Inr s' \<and> index_in_range s'"
    and "\<exists>s'. reset s = Inr s' \<and> index_in_range s'"
    and "position \<noteq> NaN \<Longrightarrow> length (parsedNodes s) < 2 ^ 53 \<Longrightarrow>
         \<exists>s'. seek position s = Inr s' \<and> index_in_range s'"
    and "\<exists>s'. setText innerHTML content s = Inr s' \<and> index_in_range s'"
proof -
  show "\<exists>s'. start s = Inr s' \<and> index_in_range s'"
    using assms
    by (cases "isPlaying s")
       (simp_all add: start_def render_zero index_in_range_def requestAnimationFrame_def
          dispatchEvent_def cancel_fields num_of_nat_nonneg)
  show "index_in_range (pause s)"
    using assms by (simp add: pause_def index_in_range_def dispatchEvent_def cancel_fields)
  show "index_in_range (resume s)"
    using assms by (simp add: resume_def index_in_range_def dispatchEvent_def requestAnimationFrame_def)
  show "\<exists>s'. complete s = Inr s' \<and> index_in_range s'"
  proof -
    let ?c = "(cancelAnimation s)\<lparr>currentIndex := num_of_nat (length (parsedNodes s)),
                isPlaying := False, isPaused := False\<rparr>"
    have "\<not> js_less (num_of_nat (length (parsedNodes ?c))) (currentIndex ?c)"
      by (simp add: cancel_fields)
    from render_total [OF this] obtain st :: render_state where
      "render ?c = Inr (?c\<lparr>contentElement := fragment_children (heap st)\<rparr>)"
      by blast
    then show ?thesis
      by (simp add: complete_def dispatchEvent_def index_in_range_def cancel_fields
          num_of_nat_nonneg num_of_nat_refl)
  qed
  show "\<exists>s'. reset s = Inr s' \<and> index_in_range s'"
    by (simp add: reset_def render_zero index_in_range_def dispatchEvent_def cancel_fields
        num_of_nat_nonneg)
  show "\<exists>s'. seek position s = Inr s' \<and> index_in_range s'"
    if "position \<noteq> NaN" "length (parsedNodes s) < 2 ^ 53"
  proof -
    from seek_unfold [of s position] obtain st :: render_state where
      sk: "seek position s =
        Inr (let idx = seek_target position (length (parsedNodes s));
                 s3 = (cancelAnimation s)\<lparr>currentIndex := idx,
                        lastTimestamp := Num 0, contentElement := fragment_children (heap st),
                        dispatched := dispatched s @
                          [EvSeek idx (js_div idx (num_of_nat (length (parsedNodes s))))]\<rparr>
             in if isPlaying s \<and> \<not> isPaused s
                then requestAnimationFrame (s3\<lparr>isPaused := False\<rparr>)
                else s3)"
      by blast
    show ?thesis
      unfolding sk using seek_target_bounds(2) [OF that]
      by (simp add: Let_def index_in_range_def requestAnimationFrame_def cancel_fields)
  qed
  show "\<exists>s'. setText innerHTML content s = Inr s' \<and> index_in_range s'"
    by (simp add: setText_def Let_def render_zero index_in_range_def num_of_nat_nonneg)
qed

text \<open>
  Claim C8. The index does not stay in range, and the \<open>progress\<close> property does not stay
  between 0 and 1. On ten characters, set and with the index 0, \<open>seek(NaN)\<close> returns with
  the index NaN, which is not in range, and the progress NaN. While the ten characters
  play, \<open>seek(9.5)\<close> leaves the index 9.5, which is in range; the frame callback that
  advances next leaves the index 10.5 and the progress above 1, and the rendering of that
  index raises an error.
\<close>

theorem seek_leaves_range:
  "map_sum id index_in_range (setText (\<lambda>content. ten_x) ''xxxxxxxxxx'' constructed) = Inr True
   \<and> map_sum id (\<lambda>s. (currentIndex s, progress s, index_in_range s))
        (and_then (setText (\<lambda>content. ten_x) ''xxxxxxxxxx'' constructed) (seek NaN))
       = Inr (NaN, NaN, False)
   \<and> map_sum id (\<lambda>s. (currentIndex s, index_in_range s)) sought = Inr (Num (19 / 2), True)
   \<and> map_sum (\<lambda>(e, s). (e, currentIndex s, index_in_range s, js_less (Num 1) (progress s)))
        (\<lambda>s. (currentIndex s, index_in_range s)) second_tick
       = Inl (TypeError, Num (21 / 2), False, True)"
  by code_simp

subsection \<open>The tick loop\<close>

lemma render_result:
  "render s = Inr s' \<Longrightarrow>
   \<exists>st. render_fragment (parsedNodes s) (currentIndex s) = Inr st
      \<and> s' = s\<lparr>contentElement := fragment_children (heap st)\<rparr>"
  by (auto simp: render_def split: sum.splits)

lemma advance_result:
  assumes "advance s = Inr s'"
  shows "if js_less (currentIndex s) (num_of_nat (length (parsedNodes s)))
         then \<exists>st. render_fragment (parsedNodes s) (js_inc (currentIndex s)) = Inr st
                \<and> s' = s\<lparr>currentIndex := js_inc (currentIndex s),
                         contentElement := fragment_children (heap st),
                         dispatched := dispatched s @
                           [EvProgress (js_inc (currentIndex s)) (num_of_nat (length (parsedNodes s)))
                              (js_div (js_inc (currentIndex s)) (num_of_nat (length (parsedNodes s))))]\<rparr>
         else s' = s"
proof (cases "js_less (currentIndex s) (num_of_nat (length (parsedNodes s)))")
  case True
  let ?s1 = "s\<lparr>currentIndex := js_inc (currentIndex s)\<rparr>"
  from assms True obtain s2 where r: "render ?s1 = Inr s2"
    by (auto simp: advance_def split: sum.splits)
  from render_result [OF r] obtain st :: render_state where
    st: "render_fragment (parsedNodes s) (js_inc (currentIndex s)) = Inr st"
    and s2: "s2 = ?s1\<lparr>contentElement := fragment_children (heap st)\<rparr>"
    by auto
  from assms True r have "s' = dispatchEvent
      (EvProgress (currentIndex s2) (num_of_nat (length (parsedNodes s2)))
         (js_div (currentIndex s2) (num_of_nat (length (parsedNodes s2))))) s2"
    by (simp add: advance_def)
  then show ?thesis using True st
    by (simp add: s2 dispatchEvent_def)
next
  case False
  then show ?thesis using assms by (simp add: advance_def)
qed

lemma delay_anchor:
  "calculateCharDelay (s\<lparr>lastTimestamp := t\<rparr>) = calculateCharDelay s"
  by (simp add: calculateCharDelay_def Let_def)

lemma animate_unfold:
  assumes "isPlaying s" "\<not> isPaused s"
  shows "animate ts s =
     (if delay_elapsed ts s then
        (case advance (s\<lparr>lastTimestamp := ts\<rparr>) of
           Inl e \<Rightarrow> Inl e
         | Inr s2 \<Rightarrow>
             if js_ge (currentIndex s2) (num_of_nat (length (parsedNodes s2)))
             then Inr (dispatchEvent EvComplete (s2\<lparr>isPlaying := False\<rparr>))
             else Inr (requestAnimationFrame s2))
      else Inr (requestAnimationFrame (s\<lparr>lastTimestamp := anchor ts s\<rparr>)))"
proof (cases "truthy (lastTimestamp s)")
  case True
  then have a: "anchor ts s = lastTimestamp s" by (simp add: anchor_def)
  have "s\<lparr>lastTimestamp := lastTimestamp s\<rparr> = s" by simp
  then show ?thesis using assms True
    by (simp add: animate_def Let_def delay_elapsed_def a js_ge_def)
next
  case False
  then have a: "anchor ts s = ts" by (simp add: anchor_def)
  show ?thesis using assms False
    by (simp add: animate_def Let_def delay_elapsed_def a js_ge_def delay_anchor)
qed


lemma advance_total:
  assumes "currentIndex s = num_of_nat k" "k \<le> length (parsedNodes s)"
    "length (parsedNodes s) < 2 ^ 53"
  shows "\<exists>s'. advance s = Inr s'"
proof (cases "js_less (currentIndex s) (num_of_nat (length (parsedNodes s)))")
  case True
  let ?s1 = "s\<lparr>currentIndex := js_inc (currentIndex s)\<rparr>"
  let ?n = "length (parsedNodes s)"
  have n: "num_of_nat ?n = Num (real ?n)" by (rule num_of_nat_small [OF assms(3)])
  have "k < 2 ^ 53" using assms(2,3) by simp
  then have k: "num_of_nat k = Num (real k)" by (rule num_of_nat_small)
  from True have lt: "k < ?n" by (simp add: assms(1) n k)
  then have "Suc k < 2 ^ 53" using assms(3) by simp
  from to_double_nat_exact [OF this] have "js_inc (num_of_nat k) = Num (real (Suc k))"
    by (simp add: k add.commute)
  then have "\<not> js_less (num_of_nat (length (parsedNodes ?s1))) (currentIndex ?s1)"
    using lt by (simp add: assms(1) n)
  from render_total [OF this] obtain s2 where "render ?s1 = Inr s2" by blast
  then show ?thesis using True by (simp add: advance_def)
next
  case False
  then show ?thesis by (simp add: advance_def)
qed

text \<open>
  A call of the frame callback while the component is not playing returns the state as it
  is: nothing changes and no frame is requested. While it plays, a call that returns
  leaves the parsed sequence alone; if the delay has elapsed and characters remain, the
  index grows by one, whatever the timestamp, and the content element holds the rendering
  of the new index; otherwise index and content stay. If the delay has elapsed and the
  index has reached the number of characters, the component stops playing, the events end
  with one \<open>complete\<close> and no frame is requested; otherwise it still plays, one frame is
  requested and no \<open>complete\<close> is dispatched. With a whole index within the sequence the
  call returns.
\<close>

lemma animate_returning:
  "(\<not> get_isPlaying s \<longrightarrow> animate ts s = Inr s)
 \<and> (get_isPlaying s \<longrightarrow> (\<forall>s'. animate ts s = Inr s' \<longrightarrow>
      parsedNodes s' = parsedNodes s
    \<and> (if delay_elapsed ts s \<and> js_less (currentIndex s) (num_of_nat (length (parsedNodes s)))
       then currentIndex s' = js_inc (currentIndex s)
          \<and> (\<exists>st. render_fragment (parsedNodes s) (js_inc (currentIndex s)) = Inr st
                 \<and> contentElement s' = fragment_children (heap st))
       else currentIndex s' = currentIndex s \<and> contentElement s' = contentElement s)
    \<and> (if delay_elapsed ts s \<and> js_ge (currentIndex s') (num_of_nat (length (parsedNodes s)))
       then \<not> isPlaying s' \<and> frameRequests s' = frameRequests s \<and> frameCounter s' = frameCounter s
          \<and> (\<exists>evs. dispatched s' = dispatched s @ evs @ [EvComplete] \<and> EvComplete \<notin> set evs)
       else get_isPlaying s' \<and> frameRequests s' = frameRequests s @ [Suc (frameCounter s)]
          \<and> (\<exists>evs. dispatched s' = dispatched s @ evs \<and> EvComplete \<notin> set evs))))
 \<and> (get_isPlaying s \<and> length (parsedNodes s) < 2 ^ 53
      \<and> (\<exists>k. k \<le> length (parsedNodes s) \<and> currentIndex s = num_of_nat k)
      \<longrightarrow> (\<exists>s'. animate ts s = Inr s'))"
proof (intro conjI impI allI)
  assume "\<not> get_isPlaying s"
  then show "animate ts s = Inr s" by (auto simp: animate_def get_isPlaying_def)
next
  fix s'
  assume pl: "get_isPlaying s" and an: "animate ts s = Inr s'"
  let ?len = "num_of_nat (length (parsedNodes s))"
  from pl have fl: "isPlaying s" "\<not> isPaused s" by (simp_all add: get_isPlaying_def)
  note u = animate_unfold [OF fl, of ts]
  have "parsedNodes s' = parsedNodes s
    \<and> (if delay_elapsed ts s \<and> js_less (currentIndex s) ?len
       then currentIndex s' = js_inc (currentIndex s)
          \<and> (\<exists>st. render_fragment (parsedNodes s) (js_inc (currentIndex s)) = Inr st
                 \<and> contentElement s' = fragment_children (heap st))
       else currentIndex s' = currentIndex s \<and> contentElement s' = contentElement s)
    \<and> (if delay_elapsed ts s \<and> js_ge (currentIndex s') ?len
       then \<not> isPlaying s' \<and> frameRequests s' = frameRequests s \<and> frameCounter s' = frameCounter s
          \<and> (\<exists>evs. dispatched s' = dispatched s @ evs @ [EvComplete] \<and> EvComplete \<notin> set evs)
       else get_isPlaying s' \<and> frameRequests s' = frameRequests s @ [Suc (frameCounter s)]
          \<and> (\<exists>evs. dispatched s' = dispatched s @ evs \<and> EvComplete \<notin> set evs))"
  proof (cases "delay_elapsed ts s")
    case False
    with an u have "s' = requestAnimationFrame (s\<lparr>lastTimestamp := anchor ts s\<rparr>)" by simp
    then show ?thesis using False fl
      by (simp add: requestAnimationFrame_def get_isPlaying_def)
  next
    case True
    let ?s1 = "s\<lparr>lastTimestamp := ts\<rparr>"
    from an u True obtain s2 where adv: "advance ?s1 = Inr s2"
      by (auto split: sum.splits)
    from an u True adv have fin:
      "s' = (if js_ge (currentIndex s2) (num_of_nat (length (parsedNodes s2)))
             then dispatchEvent EvComplete (s2\<lparr>isPlaying := False\<rparr>)
             else requestAnimationFrame s2)"
      by (simp split: if_splits)
    show ?thesis
    proof (cases "js_less (currentIndex s) ?len")
      case less: True
      from advance_result [OF adv] less obtain st :: render_state where
        st: "render_fragment (parsedNodes s) (js_inc (currentIndex s)) = Inr st"
        and s2: "s2 = ?s1\<lparr>currentIndex := js_inc (currentIndex s),
                         contentElement := fragment_children (heap st),
                         dispatched := dispatched s @
                           [EvProgress (js_inc (currentIndex s)) ?len
                              (js_div (js_inc (currentIndex s)) ?len)]\<rparr>"
        by auto
      show ?thesis
      proof (cases "js_ge (js_inc (currentIndex s)) ?len")
        case True
        with fin s2 have "s' = dispatchEvent EvComplete (s2\<lparr>isPlaying := False\<rparr>)" by simp
        then show ?thesis using \<open>delay_elapsed ts s\<close> less True st
          by (simp add: s2 dispatchEvent_def)
      next
        case False
        with fin s2 have "s' = requestAnimationFrame s2" by simp
        then show ?thesis using \<open>delay_elapsed ts s\<close> less False st fl
          by (simp add: s2 requestAnimationFrame_def get_isPlaying_def)
      qed
    next
      case nless: False
      from advance_result [OF adv] nless have s2: "s2 = ?s1" by simp
      show ?thesis
      proof (cases "js_ge (currentIndex s) ?len")
        case True
        with fin s2 have "s' = dispatchEvent EvComplete (?s1\<lparr>isPlaying := False\<rparr>)" by simp
        then show ?thesis using \<open>delay_elapsed ts s\<close> nless True
          by (simp add: dispatchEvent_def)
      next
        case False
        with fin s2 have "s' = requestAnimationFrame ?s1" by simp
        then show ?thesis using \<open>delay_elapsed ts s\<close> nless False fl
          by (simp add: requestAnimationFrame_def get_isPlaying_def)
      qed
    qed
  qed
  then show "parsedNodes s' = parsedNodes s"
    and "if delay_elapsed ts s \<and> js_less (currentIndex s) ?len
       then currentIndex s' = js_inc (currentIndex s)
          \<and> (\<exists>st. render_fragment (parsedNodes s) (js_inc (currentIndex s)) = Inr st
                 \<and> contentElement s' = fragment_children (heap st))
       else currentIndex s' = currentIndex s \<and> contentElement s' = contentElement s"
    and "if delay_elapsed ts s \<and> js_ge (currentIndex s') ?len
       then \<not> isPlaying s' \<and> frameRequests s' = frameRequests s \<and> frameCounter s' = frameCounter s
          \<and> (\<exists>evs. dispatched s' = dispatched s @ evs @ [EvComplete] \<and> EvComplete \<notin> set evs)
       else get_isPlaying s' \<and> frameRequests s' = frameRequests s @ [Suc (frameCounter s)]
          \<and> (\<exists>evs. dispatched s' = dispatched s @ evs \<and> EvComplete \<notin> set evs)"
    by blast+
next
  assume "get_isPlaying s \<and> length (parsedNodes s) < 2 ^ 53
      \<and> (\<exists>k. k \<le> length (parsedNodes s) \<and> currentIndex s = num_of_nat k)"
  then obtain k where fl: "isPlaying s" "\<not> isPaused s"
    and k: "k \<le> length (parsedNodes s)" "currentIndex s = num_of_nat k"
      "length (parsedNodes s) < 2 ^ 53"
    by (auto simp: get_isPlaying_def)
  let ?s1 = "s\<lparr>lastTimestamp := ts\<rparr>"
  from advance_total [of ?s1 k] k obtain s2 where "advance ?s1 = Inr s2" by auto
  then show "\<exists>s'. animate ts s = Inr s'"
    unfolding animate_unfold [OF fl] by simp
qed


text \<open>
  Claim C4. A frame callback that finds the index at or beyond the number of characters
  does not always complete the animation. Ten characters are set and started and
  \<open>seek(9.5)\<close> is called: the index is 9.5, the component plays and one frame is pending.
  The first callback, at the time 1000, only sets the time anchor and requests the next
  frame. The second, a delay of one character later, moves the index to 10.5 and renders;
  the loop of \<open>_render\<close> reads the entry 10 of the ten and raises a TypeError. The index
  has passed the number of characters, but \<open>_isPlaying\<close> is still set, no \<open>complete\<close> has
  been dispatched, and no frame is pending.
\<close>

theorem tick_after_fractional_seek:
  "map_sum id observed sought
     = Inr (Num (19 / 2), js_div (Num (19 / 2)) (Num 10), True, True, [2], False)
   \<and> map_sum id observed first_tick
     = Inr (Num (19 / 2), js_div (Num (19 / 2)) (Num 10), True, True, [3], False)
   \<and> map_sum (map_prod id observed) observed second_tick
     = Inl (TypeError, Num (21 / 2), js_div (Num (21 / 2)) (Num 10), True, True, [], False)"
  by code_simp

subsection \<open>The parser\<close>

lemma push_chars_append: "push_chars cs openTags acc = acc @ map (\<lambda>c. CharNode c openTags) cs"
  by (induction cs arbitrary: acc) simp_all

lemma traverse_append:
  "traverseNodes nodes openTags acc = acc @ traverseNodes nodes openTags []"
  "traverseNode node openTags acc = acc @ traverseNode node openTags []"
proof (induction nodes and node arbitrary: openTags acc and openTags acc
       rule: visits_visit_node.induct)
  case (2 node nodes)
  show ?case
    using "2.IH"(2) [of openTags "traverseNode node openTags acc"]
          "2.IH"(2) [of openTags "traverseNode node openTags []"]
          "2.IH"(1) [of openTags acc]
    by simp
next
  case (4 n attrs childNodes)
  show ?case
    using "4.IH" [of "openTags @ [\<lparr>name = toLowerCase n, attributes = copy_attributes attrs []\<rparr>]" acc]
    by (simp add: Let_def)
qed (simp_all add: push_chars_append)

lemma put_fresh: "k \<notin> fst ` set obj \<Longrightarrow> put k v obj = obj @ [(k, v)]"
  by (induction obj) auto

lemma copy_attributes_distinct:
  "distinct (map fst attrs) \<Longrightarrow> fst ` set attrs \<inter> fst ` set obj = {} \<Longrightarrow>
   ''__proto__'' \<notin> fst ` set attrs \<Longrightarrow> copy_attributes attrs obj = obj @ attrs"
proof (induction attrs arbitrary: obj)
  case Nil
  then show ?case by simp
next
  case (Cons a attrs)
  obtain k v where a: "a = (k, v)" by (cases a)
  from Cons.prems a have fresh: "k \<notin> fst ` set obj" and k: "k \<noteq> ''__proto__''" by auto
  from Cons.prems a have "distinct (map fst attrs)"
    and "fst ` set attrs \<inter> fst ` set (obj @ [(k, v)]) = {}"
    and "''__proto__'' \<notin> fst ` set attrs" by auto
  from Cons.IH [OF this] show ?case
    by (simp add: a obj_set_def k put_fresh [OF fresh])
qed

lemma walk_traverse:
  "distinct_names nodes \<Longrightarrow> proto_free nodes \<Longrightarrow>
   walk (visits nodes @ rest) stack = traverseNodes nodes stack [] @ walk rest stack"
  "distinct_names_node node \<Longrightarrow> proto_free_node node \<Longrightarrow>
   walk (visit_node node @ rest) stack = traverseNode node stack [] @ walk rest stack"
proof (induction nodes and node arbitrary: rest stack and rest stack rule: visits_visit_node.induct)
  case (2 node nodes)
  then show ?case
    using traverse_append(1) [of nodes stack "traverseNode node stack []"] by simp
next
  case (4 n attrs childNodes)
  then have "copy_attributes attrs [] = attrs"
    using copy_attributes_distinct [of attrs "[]"] by simp
  then show ?case using 4 by (simp add: Let_def)
qed (simp_all add: push_chars_append)

lemma chars_traverse:
  "map char (traverseNodes nodes openTags []) = textContent nodes"
  "map char (traverseNode node openTags []) = text_of node"
proof (induction nodes and node arbitrary: openTags and openTags rule: visits_visit_node.induct)
  case (2 node nodes)
  then show ?case
    using traverse_append(1) [of nodes openTags "traverseNode node openTags []"] by simp
qed (simp_all add: push_chars_append Let_def comp_def)


text \<open>
  On a tree without an attribute named \<open>__proto__\<close> the parser emits what the walk with
  the ancestry stack emits: one unit for each character of each text node in document
  order, with the stack of lower-cased names and copied attributes of that moment. On every
  tree the characters of the units are the text of the tree; what has been emitted is a
  prefix of what is emitted later, so no later push or pop changes it; a comment adds
  nothing; and no nodes give no units.
\<close>

lemma parseContent_walk:
  "(distinct_names nodes \<and> proto_free nodes \<longrightarrow> parseContent nodes = walk (visits nodes) [])
   \<and> map char (parseContent nodes) = textContent nodes
   \<and> traverseNodes nodes openTags acc = acc @ traverseNodes nodes openTags []
   \<and> parseContent (SComment c # nodes) = parseContent nodes
   \<and> parseContent [] = []"
proof (intro conjI impI)
  assume "distinct_names nodes \<and> proto_free nodes"
  then have "distinct_names nodes" "proto_free nodes" by simp_all
  from walk_traverse(1) [OF this, of "[]" "[]"]
  show "parseContent nodes = walk (visits nodes) []" by (simp add: parseContent_def)
next
  show "map char (parseContent nodes) = textContent nodes"
    by (simp add: parseContent_def chars_traverse)
  show "traverseNodes nodes openTags acc = acc @ traverseNodes nodes openTags []"
    by (rule traverse_append)
  show "parseContent (SComment c # nodes) = parseContent nodes"
    by (simp add: parseContent_def)
  show "parseContent [] = []" by (simp add: parseContent_def)
qed

lemma parse_mixed:
  "parseContent mixed_tree =
       [CharNode CHR ''a'' [\<lparr>name = ''p'', attributes = [(''class'', ''x'')]\<rparr>],
        CharNode CHR ''c'' [\<lparr>name = ''p'', attributes = [(''class'', ''x'')]\<rparr>,
                            \<lparr>name = ''b'', attributes = [(''id'', ''k''), (''dir'', ''rtl'')]\<rparr>]]"
  by code_simp

text \<open>
  Claim C7. The parser does not copy every attribute into the path. For
  \<open><b __proto__="x" id="k">Hi</b>\<close> both units have the one frame \<open>b\<close> with the attribute
  \<open>id\<close> alone: the assignment \<open>tagInfo.attributes[attr.name] = attr.value\<close> stores nothing
  under the name \<open>__proto__\<close>. The walk that copies the attributes keeps both.
\<close>

theorem proto_attribute_dropped:
  "parseContent proto_tree =
     [CharNode CHR ''H'' [\<lparr>name = ''b'', attributes = [(''id'', ''k'')]\<rparr>],
      CharNode CHR ''i'' [\<lparr>name = ''b'', attributes = [(''id'', ''k'')]\<rparr>]]
   \<and> walk (visits proto_tree) [] =
     [CharNode CHR ''H'' [\<lparr>name = ''b'', attributes = [(''__proto__'', ''x''), (''id'', ''k'')]\<rparr>],
      CharNode CHR ''i'' [\<lparr>name = ''b'', attributes = [(''__proto__'', ''x''), (''id'', ''k'')]\<rparr>]]"
  by code_simp

subsection \<open>Rendering a nested tree\<close>

text \<open>
  Claim C1. The full rendering of \<open><p>a<b>c</b></p>\<close> is not the tree that was parsed:
  the character in the inner element comes out in a second \<open>p\<close> element, because the
  comparison of the stack with a deeper path fails on the lengths and closes every open
  element.
\<close>

theorem render_breaks_nesting:
  "map_sum id (\<lambda>st. fragment_children (heap st))
     (render_fragment (parseContent nested_tree) (num_of_nat (length (parseContent nested_tree))))
   = Inr [DElement ''p'' [] [DText ''a''], DElement ''p'' [] [DElement ''b'' [] [DText ''c'']]]
   \<and> source_dom nested_tree = [DElement ''p'' [] [DText ''a'', DElement ''b'' [] [DText ''c'']]]"
  by code_simp

subsection \<open>The stack of open elements\<close>

lemma nodeName_kind:
  "nodeName d = (case kind d of Element n as \<Rightarrow> toUpperCase n | TextNode t \<Rightarrow> ''#text''
                 | Fragment \<Rightarrow> ''#document-fragment'')"
proof (cases d)
  case (fields k cs)
  then show ?thesis by (cases k) simp_all
qed

lemma node_matches_kind:
  "kind (h' ! e) = kind (h ! e) \<Longrightarrow> node_matches h' e t = node_matches h e t"
  by (simp add: node_matches_def nodeName_kind)

lemma tagsMatch_loop_all2:
  "length es = length ts \<Longrightarrow> tagsMatch_loop h es ts = list_all2 (node_matches h) es ts"
  by (induction h es ts rule: tagsMatch_loop.induct) (auto simp: node_matches_def)

lemma tagsMatch_all2: "tagsMatch h es ts = list_all2 (node_matches h) es ts"
proof (cases "length es = length ts")
  case True
  then show ?thesis by (simp add: tagsMatch_def tagsMatch_loop_all2)
next
  case False
  then show ?thesis by (auto simp: tagsMatch_def dest: list_all2_lengthD)
qed

lemma lower_upper_lower: "lower_char (upper_char (lower_char c)) = lower_char c"
proof -
  let ?n = "of_char c :: nat"
  show ?thesis
  proof (cases "65 \<le> ?n \<and> ?n \<le> 90")
    case True
    then have l: "lower_char c = char_of (?n + 32)" by (simp add: lower_char_def)
    have o: "(of_char (char_of (?n + 32) :: char) :: nat) = ?n + 32"
      using True by simp
    have u: "upper_char (char_of (?n + 32)) = c"
      using True by (simp add: upper_char_def o)
    show ?thesis using True by (simp add: l u lower_char_def)
  next
    case False
    then have l: "lower_char c = c" by (auto simp: lower_char_def)
    show ?thesis
    proof (cases "97 \<le> ?n \<and> ?n \<le> 122")
      case True
      then have u: "upper_char c = char_of (?n - 32)" by (simp add: upper_char_def)
      have "?n - 32 < 256" using True by arith
      then have o: "(of_char (char_of (?n - 32) :: char) :: nat) = ?n - 32"
        by simp
      have "lower_char (char_of (?n - 32)) = char_of (?n - 32 + 32)"
        unfolding lower_char_def Let_def o using True by auto
      then show ?thesis using True by (simp add: l u)
    next
      case False
      then have "upper_char c = c" by (auto simp: upper_char_def)
      then show ?thesis by (simp add: l)
    qed
  qed
qed

lemma toLowerCase_nodeName:
  "toLowerCase (toUpperCase (toLowerCase n)) = toLowerCase n"
  by (simp add: toLowerCase_def toUpperCase_def lower_upper_lower)


declare close_tags.simps [simp del]

lemma set_attributes_element:
  assumes "e < length h" "h ! e = \<lparr>kind = Element n as, children = cs\<rparr>"
  shows "set_attributes e kvs h = h[e := \<lparr>kind = Element n (attrs_after kvs as), children = cs\<rparr>]"
  using assms
proof (induction kvs arbitrary: h as)
  case Nil
  then show ?case by (simp add: list_update_same_conv [THEN iffD2])
next
  case (Cons kv kvs)
  obtain k v where kv: "kv = (k, v)" by (cases kv)
  let ?h = "setAttribute e k v h"
  have h: "?h = h[e := \<lparr>kind = Element n (put k v as), children = cs\<rparr>]"
    using Cons.prems by (simp add: setAttribute_def)
  then have "e < length ?h" "?h ! e = \<lparr>kind = Element n (put k v as), children = cs\<rparr>"
    using Cons.prems by simp_all
  from Cons.IH [OF this] show ?case by (simp add: kv h)
qed

lemma open_tag_heap:
  assumes "currentParent st < length (heap st)"
  shows "heap (open_tag t st) =
     (heap st @ [\<lparr>kind = Element (toLowerCase (name t)) (attrs_after (Object_entries (attributes t)) []),
                 children = []\<rparr>])
       [currentParent st := (heap st ! currentParent st)
          \<lparr>children := children (heap st ! currentParent st) @ [length (heap st)]\<rparr>]"
proof -
  let ?e = "length (heap st)"
  let ?h1 = "heap st @ [createElement (name t)]"
  have "?e < length ?h1" "?h1 ! ?e = \<lparr>kind = Element (toLowerCase (name t)) [], children = []\<rparr>"
    by (simp_all add: createElement_def)
  from set_attributes_element [OF this, of "Object_entries (attributes t)"]
  have h2: "set_attributes ?e (Object_entries (attributes t)) ?h1 =
     heap st @ [\<lparr>kind = Element (toLowerCase (name t)) (attrs_after (Object_entries (attributes t)) []),
                children = []\<rparr>]"
    by simp
  show ?thesis
    using assms by (simp add: open_tag_def Let_def h2 appendChild_def nth_append)
qed

lemma open_tag_fields:
  "tagStack (open_tag t st) = tagStack st @ [length (heap st)]"
  "parentStack (open_tag t st) = parentStack st @ [length (heap st)]"
  "currentParent (open_tag t st) = length (heap st)"
  by (simp_all add: open_tag_def Let_def)

lemma stack_ok_parent: "stack_ok st \<Longrightarrow> currentParent st < length (heap st)"
  by (cases "tagStack st" rule: rev_cases) (auto simp: stack_ok_def list_all_iff)

lemma open_tag_ok:
  assumes "stack_ok st"
  shows "stack_ok (open_tag t st)"
    and "length (heap (open_tag t st)) = Suc (length (heap st))"
    and "e < length (heap st) \<Longrightarrow> kind (heap (open_tag t st) ! e) = kind (heap st ! e)"
    and "kind (heap (open_tag t st) ! length (heap st)) =
           Element (toLowerCase (name t)) (attrs_after (Object_entries (attributes t)) [])"
proof -
  note p = stack_ok_parent [OF assms]
  note h = open_tag_heap [OF p, of t]
  show len: "length (heap (open_tag t st)) = Suc (length (heap st))" by (simp add: h)
  show "stack_ok (open_tag t st)"
    using assms len by (auto simp: stack_ok_def open_tag_fields list_all_iff)
  show "kind (heap (open_tag t st) ! e) = kind (heap st ! e)" if "e < length (heap st)"
    using that p by (simp add: h nth_list_update nth_append)
  show "kind (heap (open_tag t st) ! length (heap st)) =
           Element (toLowerCase (name t)) (attrs_after (Object_entries (attributes t)) [])"
    using p by (simp add: h nth_list_update nth_append)
qed

lemma open_loop_ok:
  assumes "stack_ok st"
  shows "stack_ok (open_loop ts st)
       \<and> length (heap (open_loop ts st)) = length (heap st) + length ts
       \<and> tagStack (open_loop ts st) = tagStack st @ [length (heap st) ..< length (heap st) + length ts]
       \<and> currentParent (open_loop ts st) =
           (if ts = [] then currentParent st else length (heap st) + length ts - 1)
       \<and> (\<forall>e < length (heap st). kind (heap (open_loop ts st) ! e) = kind (heap st ! e))
       \<and> (\<forall>j < length ts. kind (heap (open_loop ts st) ! (length (heap st) + j)) =
             Element (toLowerCase (name (ts ! j))) (attrs_after (Object_entries (attributes (ts ! j))) []))"
  using assms
proof (induction ts arbitrary: st)
  case Nil
  then show ?case by simp
next
  case (Cons t ts)
  let ?st = "open_tag t st"
  note o = open_tag_ok [OF Cons.prems, where t = t]
  note ih = Cons.IH [OF o(1)]
  have n: "length (heap ?st) = Suc (length (heap st))" by (rule o(2))
  have "[length (heap st) ..< length (heap st) + Suc (length ts)] =
             length (heap st) # [Suc (length (heap st)) ..< length (heap st) + Suc (length ts)]"
    by (rule upt_conv_Cons) simp
  moreover have "length (heap st) + Suc (length ts) = Suc (length (heap st)) + length ts" by simp
  ultimately have upt: "[length (heap st) ..< length (heap st) + Suc (length ts)] =
             length (heap st) # [Suc (length (heap st)) ..< Suc (length (heap st)) + length ts]"
    by (simp only:)
  have old: "\<forall>e < length (heap st). kind (heap (open_loop ts ?st) ! e) = kind (heap st ! e)"
    using ih o(3) n by simp
  have new: "\<forall>j < length (t # ts). kind (heap (open_loop (t # ts) st) ! (length (heap st) + j)) =
             Element (toLowerCase (name ((t # ts) ! j))) (attrs_after (Object_entries (attributes ((t # ts) ! j))) [])"
  proof (intro allI impI)
    fix j assume j: "j < length (t # ts)"
    show "kind (heap (open_loop (t # ts) st) ! (length (heap st) + j)) =
             Element (toLowerCase (name ((t # ts) ! j))) (attrs_after (Object_entries (attributes ((t # ts) ! j))) [])"
    proof (cases j)
      case 0
      have "kind (heap (open_loop ts ?st) ! length (heap st)) = kind (heap ?st ! length (heap st))"
        using ih n by simp
      then show ?thesis using 0 o(4) by simp
    next
      case (Suc i)
      then have "i < length ts" using j by simp
      with ih have "kind (heap (open_loop ts ?st) ! (length (heap ?st) + i)) =
             Element (toLowerCase (name (ts ! i))) (attrs_after (Object_entries (attributes (ts ! i))) [])"
        by blast
      then show ?thesis using Suc n by simp
    qed
  qed
  have st: "stack_ok (open_loop (t # ts) st)" using ih by simp
  have len: "length (heap (open_loop (t # ts) st)) = length (heap st) + length (t # ts)"
    using ih n by simp
  have ts: "tagStack (open_loop (t # ts) st) =
            tagStack st @ [length (heap st) ..< length (heap st) + length (t # ts)]"
  proof -
    from ih have "tagStack (open_loop ts ?st) =
        tagStack ?st @ [length (heap ?st) ..< length (heap ?st) + length ts]" by blast
    then have "tagStack (open_loop (t # ts) st) =
        (tagStack st @ [length (heap st)]) @
          [Suc (length (heap st)) ..< Suc (length (heap st)) + length ts]"
      by (simp only: open_loop.simps open_tag_fields n)
    also have "\<dots> = tagStack st @ [length (heap st) ..< length (heap st) + Suc (length ts)]"
      by (simp only: upt append_assoc append_Cons append_Nil)
    finally show ?thesis by (simp only: list.size One_nat_def add_Suc_right add_0_right)
  qed
  have cp: "currentParent (open_loop (t # ts) st) = length (heap st) + length (t # ts) - 1"
    using ih n by (simp add: open_tag_fields)
  from st len ts cp old new show ?case by simp
qed


lemma close_tags_ok:
  assumes "stack_ok st"
  shows "stack_ok (close_tags ts st) \<and> heap (close_tags ts st) = heap st
       \<and> (tagStack (close_tags ts st) = []
            \<or> list_all2 (node_matches (heap st)) (tagStack (close_tags ts st)) ts)"
  using assms
proof (induction ts st rule: close_tags.induct)
  case (1 ts st)
  let ?c = "length (tagStack st) > length ts \<or>
         (length (tagStack st) > 0 \<and> \<not> tagsMatch (heap st) (tagStack st) ts)"
  show ?case
  proof (cases ?c)
    case True
    let ?st = "st\<lparr>tagStack := butlast (tagStack st), parentStack := butlast (parentStack st),
                  currentParent := last (butlast (parentStack st))\<rparr>"
    from True have ne: "tagStack st \<noteq> []" by auto
    have "stack_ok ?st"
      using "1.prems" ne
      by (auto simp: stack_ok_def list_all_iff butlast_append dest: in_set_butlastD)
    from "1.IH" [OF True this]
    have ih: "stack_ok (close_tags ts ?st) \<and> heap (close_tags ts ?st) = heap st
       \<and> (tagStack (close_tags ts ?st) = []
            \<or> list_all2 (node_matches (heap st)) (tagStack (close_tags ts ?st)) ts)"
      by simp
    have eq: "close_tags ts st = close_tags ts ?st"
      using True by (subst close_tags.simps) simp
    show ?thesis unfolding eq by (rule ih)
  next
    case False
    then have "close_tags ts st = st" by (subst close_tags.simps) auto
    then show ?thesis using False "1.prems" by (auto simp: tagsMatch_all2)
  qed
qed

lemma add_text_ok:
  assumes "stack_ok st"
  shows "stack_ok (add_text c st)"
    and "tagStack (add_text c st) = tagStack st"
    and "currentParent (add_text c st) = currentParent st"
    and "length (heap (add_text c st)) = Suc (length (heap st))"
    and "kind (heap (add_text c st) ! length (heap st)) = TextNode [c]"
    and "e < length (heap st) \<Longrightarrow> kind (heap (add_text c st) ! e) = kind (heap st ! e)"
    and "children (heap (add_text c st) ! currentParent st) =
           children (heap st ! currentParent st) @ [length (heap st)]"
proof -
  note p = stack_ok_parent [OF assms]
  have h: "heap (add_text c st) =
      (heap st @ [createTextNode [c]])
        [currentParent st := (heap st ! currentParent st)
            \<lparr>children := children (heap st ! currentParent st) @ [length (heap st)]\<rparr>]"
    using p by (simp add: add_text_def Let_def appendChild_def nth_append)
  show "tagStack (add_text c st) = tagStack st" "currentParent (add_text c st) = currentParent st"
    by (simp_all add: add_text_def Let_def)
  show len: "length (heap (add_text c st)) = Suc (length (heap st))" by (simp add: h)
  show "stack_ok (add_text c st)"
    using assms len by (auto simp: stack_ok_def add_text_def Let_def list_all_iff)
  show "kind (heap (add_text c st) ! length (heap st)) = TextNode [c]"
    using p by (simp add: h createTextNode_def)
  show "kind (heap (add_text c st) ! e) = kind (heap st ! e)" if "e < length (heap st)"
    using that p by (simp add: h nth_list_update nth_append)
  show "children (heap (add_text c st) ! currentParent st) =
           children (heap st ! currentParent st) @ [length (heap st)]"
    using p by (simp add: h)
qed

lemma node_matches_names:
  assumes "list_all2 (node_matches h) es ts1" "map name ts1 = map name ts2"
  shows "list_all2 (node_matches h) es ts2"
proof -
  from assms(2) have len: "length ts1 = length ts2" by (rule map_eq_imp_length_eq)
  have nm: "name (ts1 ! i) = name (ts2 ! i)" if "i < length ts1" for i
    using that len nth_map [of i ts1 name] nth_map [of i ts2 name] assms(2) by simp
  show ?thesis
    using assms(1) len nm by (auto simp: list_all2_conv_all_nth node_matches_def)
qed

lemma render_node_kept:
  assumes "list_all2 (node_matches (heap st)) (tagStack st) ts"
  shows "render_node (CharNode c ts) st = add_text c st"
proof -
  from assms have len: "length (tagStack st) = length ts" by (rule list_all2_lengthD)
  have "close_tags ts st = st"
    using assms len by (subst close_tags.simps) (simp add: tagsMatch_all2)
  then show ?thesis using len by (simp add: open_tags_def)
qed

lemma render_node_ok:
  assumes ok: "stack_ok st" and low: "\<forall>t \<in> set ts. name t = toLowerCase (name t)"
  shows "stack_ok (render_node (CharNode c ts) st)
       \<and> list_all2 (node_matches (heap (render_node (CharNode c ts) st)))
            (tagStack (render_node (CharNode c ts) st)) ts
       \<and> (ts \<noteq> [] \<longrightarrow>
            currentParent (render_node (CharNode c ts) st) < length (heap st)
            \<or> kind (heap (render_node (CharNode c ts) st) ! currentParent (render_node (CharNode c ts) st))
                = Element (name (last ts)) (attrs_after (Object_entries (attributes (last ts))) []))"
proof -
  let ?st' = "close_tags ts st"
  note c = close_tags_ok [OF ok, of ts]
  from c have ok': "stack_ok ?st'" and h': "heap ?st' = heap st" by simp_all
  show ?thesis
  proof (cases "list_all2 (node_matches (heap st)) (tagStack ?st') ts")
    case True
    then have len: "length (tagStack ?st') = length ts" by (rule list_all2_lengthD)
    then have o: "open_tags ts ?st' = ?st'" by (simp add: open_tags_def)
    let ?st1 = "add_text c ?st'"
    note a = add_text_ok [OF ok', where c = c]
    have in_heap: "e < length (heap ?st')" if "e \<in> set (tagStack ?st')" for e
      using ok' that by (simp add: stack_ok_def list_all_iff)
    have "node_matches (heap ?st1) (tagStack ?st' ! i) (ts ! i)"
      if "i < length (tagStack ?st')" for i
    proof -
      have "tagStack ?st' ! i \<in> set (tagStack ?st')" using that by simp
      then have "tagStack ?st' ! i < length (heap ?st')" by (rule in_heap)
      from a(6) [OF this]
      have "node_matches (heap ?st1) (tagStack ?st' ! i) (ts ! i) =
            node_matches (heap ?st') (tagStack ?st' ! i) (ts ! i)"
        by (rule node_matches_kind)
      moreover have "node_matches (heap st) (tagStack ?st' ! i) (ts ! i)"
        using True that by (simp add: list_all2_conv_all_nth)
      ultimately show ?thesis by (simp add: h')
    qed
    then have "list_all2 (node_matches (heap ?st1)) (tagStack ?st') ts"
      using len by (simp add: list_all2_conv_all_nth)
    moreover have "currentParent ?st1 < length (heap st)"
      using a(3) stack_ok_parent [OF ok'] h' by simp
    ultimately show ?thesis using a(1) a(2) by (simp add: o)
  next
    case False
    with c have e: "tagStack ?st' = []" by blast
    then have o: "open_tags ts ?st' = open_loop ts ?st'" by (simp add: open_tags_def)
    let ?st2 = "open_loop ts ?st'"
    note l = open_loop_ok [OF ok', of ts]
    from l have ok2: "stack_ok ?st2" by simp
    let ?st1 = "add_text c ?st2"
    note a = add_text_ok [OF ok2, where c = c]
    let ?n = "length (heap st)"
    have ts2: "tagStack ?st2 = [?n ..< ?n + length ts]" using l e h' by simp
    have len2: "length (heap ?st2) = ?n + length ts" using l h' by simp
    have k2: "kind (heap ?st2 ! (?n + j)) =
                Element (toLowerCase (name (ts ! j))) (attrs_after (Object_entries (attributes (ts ! j))) [])"
      if "j < length ts" for j using l that h' by simp
    have k1: "kind (heap ?st1 ! (?n + j)) =
                Element (name (ts ! j)) (attrs_after (Object_entries (attributes (ts ! j))) [])"
      if "j < length ts" for j
    proof -
      have "?n + j < length (heap ?st2)" using that len2 by simp
      from a(6) [OF this] k2 [OF that] low that show ?thesis by simp
    qed
    have m: "node_matches (heap ?st1) (?n + j) (ts ! j)" if "j < length ts" for j
    proof -
      have "name (ts ! j) = toLowerCase (name (ts ! j))" using low that by simp
      then have "toLowerCase (toUpperCase (name (ts ! j))) = name (ts ! j)"
        by (metis toLowerCase_nodeName)
      then show ?thesis using k1 [OF that]
        by (simp add: node_matches_def nodeName_kind)
    qed
    have all: "list_all2 (node_matches (heap ?st1)) (tagStack ?st1) ts"
      using m by (simp add: a(2) ts2 list_all2_conv_all_nth)
    have cur: "kind (heap ?st1 ! currentParent ?st1)
                = Element (name (last ts)) (attrs_after (Object_entries (attributes (last ts))) [])"
      if "ts \<noteq> []"
    proof -
      from l that have "currentParent ?st2 = length (heap ?st') + length ts - 1" by simp
      moreover have "?n + length ts - 1 = ?n + (length ts - 1)"
        using that by (cases ts) simp_all
      ultimately have cp: "currentParent ?st2 = ?n + (length ts - 1)" by (simp only: h')
      have "length ts - 1 < length ts" using that by simp
      from k1 [OF this] show ?thesis using that by (simp add: a(3) cp last_conv_nth)
    qed
    show ?thesis using a(1) all cur by (simp add: o)
  qed
qed


lemma open_tags_ok: "stack_ok st \<Longrightarrow> stack_ok (open_tags ts st)"
  using open_loop_ok [of st "drop (length (tagStack st)) ts"] by (simp add: open_tags_def)

text \<open>The stacks are in order at the start of \<open>_render\<close> and after every round of its loop.\<close>

lemma render_node_stack_ok: "stack_ok st \<Longrightarrow> stack_ok (render_node n st)"
proof (cases n)
  case (CharNode c ts)
  assume ok: "stack_ok st"
  from close_tags_ok [OF ok, of ts] have "stack_ok (close_tags ts st)" by simp
  then have "stack_ok (open_tags ts (close_tags ts st))" by (rule open_tags_ok)
  then show ?thesis using CharNode by (simp add: add_text_ok(1))
qed

lemma render_loop_stack_ok:
  "stack_ok st \<Longrightarrow> render_loop ns i idx st = Inr st' \<Longrightarrow> stack_ok st'"
proof (induction ns arbitrary: i st)
  case Nil
  then show ?case by (simp split: if_splits)
next
  case (Cons n ns)
  show ?case
  proof (cases "js_less (num_of_nat i) idx")
    case True
    with Cons.prems have "render_loop ns (Suc i) idx (render_node n st) = Inr st'" by simp
    from Cons.IH [OF render_node_stack_ok [OF Cons.prems(1)] this] show ?thesis .
  next
    case False
    with Cons.prems show ?thesis by simp
  qed
qed

lemma render_init_stack_ok: "stack_ok render_init"
  by (simp add: stack_ok_def render_init_def)

subsection \<open>Consecutive characters under tags of the same names\<close>

text \<open>
  For three siblings \<open>b\<close> with \<open>x\<close> = 1, 2, 3 the second and third characters lie in one
  element, and it carries the attributes of the first sibling, not of the second.
\<close>

theorem third_sibling_counterexample:
  "map tags (parseContent three_b_tree) =
     [[\<lparr>name = ''b'', attributes = [(''x'', ''1'')]\<rparr>],
      [\<lparr>name = ''b'', attributes = [(''x'', ''2'')]\<rparr>],
      [\<lparr>name = ''b'', attributes = [(''x'', ''3'')]\<rparr>]]
   \<and> map_sum id heap (render_fragment (parseContent three_b_tree) (Num 3)) =
     Inr [\<lparr>kind = Fragment, children = [1]\<rparr>,
          \<lparr>kind = Element ''b'' [(''x'', ''1'')], children = [2, 3, 4]\<rparr>,
          \<lparr>kind = TextNode ''a'', children = []\<rparr>,
          \<lparr>kind = TextNode ''b'', children = []\<rparr>,
          \<lparr>kind = TextNode ''c'', children = []\<rparr>]"
  by code_simp

text \<open>
  Claim C10, amended. Let two characters follow each other whose paths have the same
  positive depth and the same lower-case tag names, frame by frame, at any point of the
  loop. Rendering the second one opens and closes nothing: both text nodes are the last
  two children of the element on top of the stack, and that element keeps the attributes
  it has. They are the attributes of the first of the two frames if the first character
  opened the element, and those of the earlier frame that opened it otherwise.
\<close>

theorem same_names_share_element:
  assumes ok: "stack_ok st0"
    and low: "\<forall>t \<in> set ts1. name t = toLowerCase (name t)"
    and depth: "ts1 \<noteq> []"
    and names: "map name ts1 = map name ts2"
  shows "let st1 = render_node (CharNode c1 ts1) st0;
             st2 = render_node (CharNode c2 ts2) st1;
             e = currentParent st1;
             t1 = length (heap st1) - 1;
             t2 = length (heap st1)
         in e = last (tagStack st1) \<and> tagStack st2 = tagStack st1 \<and> currentParent st2 = e
          \<and> length (heap st2) = Suc (length (heap st1))
          \<and> kind (heap st2 ! t1) = TextNode [c1] \<and> kind (heap st2 ! t2) = TextNode [c2]
          \<and> (\<exists>cs. children (heap st2 ! e) = cs @ [t1, t2])
          \<and> kind (heap st2 ! e) = kind (heap st1 ! e)
          \<and> (length (heap st0) \<le> e \<longrightarrow>
               kind (heap st2 ! e) =
                 Element (name (last ts1)) (attrs_after (Object_entries (attributes (last ts1))) []))"
proof -
  define stx where "stx = open_tags ts1 (close_tags ts1 st0)"
  define st1 where "st1 = add_text c1 stx"
  define st2 where "st2 = add_text c2 st1"
  have r1: "render_node (CharNode c1 ts1) st0 = st1" by (simp add: st1_def stx_def)
  have okx: "stack_ok stx"
    using close_tags_ok [OF ok, of ts1] by (simp add: open_tags_ok stx_def)
  note ax = add_text_ok [OF okx, where c = c1, folded st1_def]
  note r = render_node_ok [OF ok low, of c1, unfolded r1]
  from r have ok1: "stack_ok st1"
    and m1: "list_all2 (node_matches (heap st1)) (tagStack st1) ts1" by simp_all
  from node_matches_names [OF m1 names]
  have r2: "render_node (CharNode c2 ts2) st1 = st2" unfolding st2_def by (rule render_node_kept)
  note a1 = add_text_ok [OF ok1, where c = c2, folded st2_def]
  have ne: "tagStack st1 \<noteq> []" using m1 depth by auto
  have e_last: "currentParent st1 = last (tagStack st1)"
    using ok1 ne by (simp add: stack_ok_def)
  have e_lt: "currentParent st1 < length (heap st1)" by (rule stack_ok_parent [OF ok1])
  have t1: "length (heap st1) - 1 = length (heap stx)" using ax(4) by simp
  have c1: "children (heap st1 ! currentParent st1) =
            children (heap stx ! currentParent st1) @ [length (heap stx)]"
    using ax(7) ax(3) by simp
  have "length (heap stx) < length (heap st1)" using ax(4) by simp
  from a1(6) [OF this] ax(5)
  have k2: "kind (heap st2 ! (length (heap st1) - 1)) = TextNode [c1]" by (simp add: ax(4))
  have k3: "kind (heap st2 ! length (heap st1)) = TextNode [c2]" by (rule a1(5))
  have c2: "children (heap st2 ! currentParent st1) =
      children (heap stx ! currentParent st1) @ [length (heap st1) - 1, length (heap st1)]"
    using a1(7) c1 by (simp add: ax(4))
  have ke: "kind (heap st2 ! currentParent st1) = kind (heap st1 ! currentParent st1)"
    by (rule a1(6) [OF e_lt])
  have new: "kind (heap st2 ! currentParent st1) =
      Element (name (last ts1)) (attrs_after (Object_entries (attributes (last ts1))) [])"
    if "length (heap st0) \<le> currentParent st1"
    using r depth that ke by auto
  show ?thesis
    unfolding Let_def r1 r2 using e_last a1(2) a1(3) a1(4) k2 k3 c2 ke new by blast
qed

text \<open>Two siblings at the start of the rendering: one element with the first attributes.\<close>

theorem same_names_share_element_witness:
  "stack_ok render_init
   \<and> map name [\<lparr>name = ''b'', attributes = [(''x'', ''1'')]\<rparr>]
       = map name [\<lparr>name = ''b'', attributes = [(''x'', ''2'')]\<rparr>]
   \<and> kind (heap (render_node (CharNode CHR ''b'' [\<lparr>name = ''b'', attributes = [(''x'', ''2'')]\<rparr>])
                    (render_node (CharNode CHR ''a'' [\<lparr>name = ''b'', attributes = [(''x'', ''1'')]\<rparr>])
                       render_init)) ! 1)
       = Element ''b'' [(''x'', ''1'')]
   \<and> (\<exists>cs. children (heap (render_node (CharNode CHR ''b'' [\<lparr>name = ''b'', attributes = [(''x'', ''2'')]\<rparr>])
                    (render_node (CharNode CHR ''a'' [\<lparr>name = ''b'', attributes = [(''x'', ''1'')]\<rparr>])
                       render_init)) ! 1) = cs @ [2, 3])"
proof -
  let ?t1 = "[\<lparr>name = ''b'', attributes = [(''x'', ''1'')]\<rparr>]"
  let ?t2 = "[\<lparr>name = ''b'', attributes = [(''x'', ''2'')]\<rparr>]"
  have ok: "stack_ok render_init" by (simp add: stack_ok_def render_init_def)
  have lb: "toLowerCase ''b'' = ''b''" by code_simp
  have low: "\<forall>t \<in> set ?t1. name t = toLowerCase (name t)" by (simp add: lb)
  have ne: "?t1 \<noteq> []" by simp
  have nm: "map name ?t1 = map name ?t2" by simp
  have st1: "render_node (CharNode CHR ''a'' ?t1) render_init =
      \<lparr>heap = [\<lparr>kind = Fragment, children = [1]\<rparr>,
                \<lparr>kind = Element ''b'' [(''x'', ''1'')], children = [2]\<rparr>,
                \<lparr>kind = TextNode ''a'', children = []\<rparr>],
       tagStack = [1], parentStack = [0, 1], currentParent = 1\<rparr>"
    by code_simp
  define st1 where "st1 = render_node (CharNode CHR ''a'' ?t1) render_init"
  define st2 where "st2 = render_node (CharNode CHR ''b'' ?t2) st1"
  have cp: "currentParent st1 = 1" and len: "length (heap st1) = 3"
    and k: "kind (heap st1 ! 1) = Element ''b'' [(''x'', ''1'')]"
    unfolding st1_def st1 by simp_all
  note t = same_names_share_element [OF ok low ne nm, of "CHR ''a''" "CHR ''b''",
      unfolded Let_def, folded st1_def, folded st2_def, unfolded cp len]
  from t have "kind (heap st2 ! 1) = kind (heap st1 ! 1)"
    and "\<exists>cs. children (heap st2 ! 1) = cs @ [3 - 1, 3]" by blast+
  then have "kind (heap st2 ! 1) = Element ''b'' [(''x'', ''1'')]"
    and "\<exists>cs. children (heap st2 ! 1) = cs @ [2, 3]" using k by simp_all
  then show ?thesis using ok unfolding st2_def st1_def by simp
qed

subsection \<open>At most one pending frame\<close>

text \<open>
  The condition on the pending frame holds of the constructed component and is kept by every
  public method, and by the frame callback once the host has taken it off its list.
\<close>

lemma frames_ok_constructed: "frames_ok constructed"
  by (simp add: frames_ok_def constructed_def)

lemma frames_ok_cong:
  "animationFrame s' = animationFrame s \<Longrightarrow> frameRequests s' = frameRequests s \<Longrightarrow>
   frameCounter s' = frameCounter s \<Longrightarrow> frames_ok s' = frames_ok s"
  by (simp add: frames_ok_def split: option.splits)

lemma frames_ok_idle: "animationFrame s = None \<Longrightarrow> frameRequests s = [] \<Longrightarrow> frames_ok s"
  by (simp add: frames_ok_def)

lemma frames_ok_request: "frameRequests s = [] \<Longrightarrow> frames_ok (requestAnimationFrame s)"
  by (simp add: frames_ok_def requestAnimationFrame_def)

lemma render_frames:
  assumes "render s = Inr s'"
  shows "animationFrame s' = animationFrame s" "frameRequests s' = frameRequests s"
    "frameCounter s' = frameCounter s"
  using render_result [OF assms] by auto

lemma frames_ok_operations:
  assumes "frames_ok s"
  shows "start s = Inr s' \<Longrightarrow> frames_ok s'"
    and "frames_ok (pause s)"
    and "frameRequests s = [] \<Longrightarrow> frames_ok (resume s)"
    and "complete s = Inr s' \<Longrightarrow> frames_ok s'"
    and "reset s = Inr s' \<Longrightarrow> frames_ok s'"
    and "seek position s = Inr s' \<Longrightarrow> frames_ok s'"
    and "setText innerHTML content s = Inr s' \<Longrightarrow> frames_ok s'"
    and "frameRequests s = [] \<Longrightarrow> animate timestamp s = Inr s' \<Longrightarrow> frames_ok s'"
proof -
  note c = cancel_normal [OF assms]
  show "frames_ok s'" if "start s = Inr s'"
  proof (cases "isPlaying s")
    case True
    with that assms show ?thesis by (simp add: start_def)
  next
    case False
    with that obtain s1 where
      r: "render (s\<lparr>frameRequests := [], animationFrame := None, currentIndex := Num 0,
                     lastTimestamp := Num 0, isPlaying := True, isPaused := False\<rparr>) = Inr s1"
      and s': "s' = requestAnimationFrame (dispatchEvent EvStart s1)"
      by (auto simp: start_def c split: sum.splits)
    from render_frames(2) [OF r] show ?thesis
      unfolding s' by (intro frames_ok_request) (simp add: dispatchEvent_def)
  qed
  show "frames_ok (pause s)"
  proof (cases "\<not> isPlaying s \<or> isPaused s")
    case True
    then show ?thesis using assms by (auto simp: pause_def)
  next
    case False
    have "frames_ok (s\<lparr>isPaused := True\<rparr>) = frames_ok s" by (rule frames_ok_cong) simp_all
    with assms have "frames_ok (s\<lparr>isPaused := True\<rparr>)" by simp
    from cancel_normal [OF this] False show ?thesis
      by (auto simp: pause_def dispatchEvent_def intro: frames_ok_idle)
  qed
  show "frames_ok (resume s)" if "frameRequests s = []"
  proof (cases "\<not> isPlaying s \<or> \<not> isPaused s")
    case True
    then show ?thesis using assms by (auto simp: resume_def)
  next
    case False
    then have "resume s = requestAnimationFrame
        (dispatchEvent EvResume (s\<lparr>isPaused := False, lastTimestamp := Num 0\<rparr>))"
      by (simp add: resume_def)
    then show ?thesis using that by (simp add: frames_ok_request dispatchEvent_def)
  qed
  show "frames_ok s'" if "complete s = Inr s'"
  proof -
    from that obtain s1 where
      r: "render (s\<lparr>frameRequests := [], animationFrame := None,
                     currentIndex := num_of_nat (length (parsedNodes s)),
                     isPlaying := False, isPaused := False\<rparr>) = Inr s1"
      and s': "s' = dispatchEvent EvComplete s1"
      by (auto simp: complete_def c split: sum.splits)
    from render_frames(1,2) [OF r] show ?thesis
      unfolding s' by (intro frames_ok_idle) (simp_all add: dispatchEvent_def)
  qed
  show "frames_ok s'" if "reset s = Inr s'"
  proof -
    from that obtain s1 where
      r: "render (s\<lparr>frameRequests := [], animationFrame := None, currentIndex := Num 0,
                     lastTimestamp := Num 0, isPlaying := False, isPaused := False\<rparr>) = Inr s1"
      and s': "s' = dispatchEvent EvReset s1"
      by (auto simp: reset_def c split: sum.splits)
    from render_frames(1,2) [OF r] show ?thesis
      unfolding s' by (intro frames_ok_idle) (simp_all add: dispatchEvent_def)
  qed
  show "frames_ok s'" if "seek position s = Inr s'"
  proof -
    from seek_unfold [of s position] that obtain st :: render_state where
      s': "s' = (let idx = seek_target position (length (parsedNodes s));
                 s3 = (cancelAnimation s)\<lparr>currentIndex := idx,
                        lastTimestamp := Num 0, contentElement := fragment_children (heap st),
                        dispatched := dispatched s @
                          [EvSeek idx (js_div idx (num_of_nat (length (parsedNodes s))))]\<rparr>
             in if isPlaying s \<and> \<not> isPaused s
                then requestAnimationFrame (s3\<lparr>isPaused := False\<rparr>)
                else s3)"
      by auto
    show ?thesis
    proof (cases "isPlaying s \<and> \<not> isPaused s")
      case True
      then show ?thesis unfolding s' Let_def c by (simp add: frames_ok_request)
    next
      case False
      then show ?thesis unfolding s' Let_def c by (auto simp: frames_ok_idle)
    qed
  qed
  show "frames_ok s'" if "setText innerHTML content s = Inr s'"
  proof -
    from that obtain s3 where r: "render s3 = Inr s'"
      and f: "animationFrame s3 = None" "frameRequests s3 = []"
      by (auto simp: setText_def Let_def c)
    from render_frames(1,2) [OF r] f show ?thesis by (intro frames_ok_idle) simp_all
  qed
  show "frames_ok s'" if e: "frameRequests s = []" and a: "animate timestamp s = Inr s'"
  proof (cases "isPlaying s \<and> \<not> isPaused s")
    case False
    with a assms show ?thesis by (auto simp: animate_def)
  next
    case True
    then have fl: "isPlaying s" "\<not> isPaused s" by simp_all
    note u = animate_unfold [OF fl, of timestamp]
    show ?thesis
    proof (cases "delay_elapsed timestamp s")
      case False
      with a u have "s' = requestAnimationFrame (s\<lparr>lastTimestamp := anchor timestamp s\<rparr>)" by simp
      then show ?thesis using e by (simp add: frames_ok_request)
    next
      case True
      from a u True obtain s2 where adv: "advance (s\<lparr>lastTimestamp := timestamp\<rparr>) = Inr s2"
        by (auto split: sum.splits)
      from advance_result [OF adv] have f2: "frameRequests s2 = []"
        "animationFrame s2 = animationFrame s" "frameCounter s2 = frameCounter s"
        using e by (auto split: if_splits)
      from a u True adv have s': 
        "s' = (if js_ge (currentIndex s2) (num_of_nat (length (parsedNodes s2)))
               then dispatchEvent EvComplete (s2\<lparr>isPlaying := False\<rparr>)
               else requestAnimationFrame s2)"
        by (simp split: if_splits)
      show ?thesis
      proof (cases "js_ge (currentIndex s2) (num_of_nat (length (parsedNodes s2)))")
        case True
        have "frames_ok (dispatchEvent EvComplete (s2\<lparr>isPlaying := False\<rparr>)) = frames_ok s"
          by (rule frames_ok_cong) (simp_all add: dispatchEvent_def f2 e)
        then show ?thesis using True s' assms by simp
      next
        case False
        then show ?thesis using s' f2 by (simp add: frames_ok_request)
      qed
    qed
  qed
qed

lemma frames_ok_run_frame:
  assumes "frames_ok s" "run_frame timestamp s = Inr s'"
  shows "frames_ok s'"
proof (cases "frameRequests s")
  case Nil
  with assms show ?thesis by (simp add: run_frame_def)
next
  case (Cons h hs)
  let ?s = "s\<lparr>frameRequests := hs\<rparr>"
  from assms(1) Cons have hs: "hs = []" and ok: "frames_ok ?s"
    by (auto simp: frames_ok_def split: option.splits)
  from assms(2) Cons have "animate timestamp ?s = Inr s'" by (simp add: run_frame_def)
  from frames_ok_operations(8) [OF ok _ this] hs show ?thesis by simp
qed

end
